theory Spec2Isabelle
  imports Main "HOL-Library.Word" "HOL-Library.Signed_Division" "HOL-Library.Log_Nat"
    "HOL-Library.Sublist"
begin

unbundle bit_operations_syntax

section \<open>JavaScript numbers and strings, as far as the hash table uses them\<close>

text \<open>
  A JavaScript string is a sequence of UTF-16 code units; \<open>charCodeAt\<close> reads one of
  them and \<open>===\<close> compares two strings unit by unit. Keys and values are both strings.
\<close>

type_synonym jsstring = "16 word list"

definition ascii :: "string \<Rightarrow> jsstring" where
  "ascii s = map (\<lambda>c. of_nat (of_char c)) s"

text \<open>
  A JavaScript \<open>number\<close> is an IEEE 754 double. Every number the hash table computes
  with is an integer, and a double holds an integer exactly when its magnitude has at
  most 53 significant bits. \<open>round_to_double x\<close> is the double nearest to the
  integer \<open>x\<close> (ties to the even significand), which is what an arithmetic operation
  returns when its exact result is \<open>x\<close>.
\<close>

definition round_to_double :: "int \<Rightarrow> int" where
  "round_to_double x =
     (let a = \<bar>x\<bar>;
          e = nat (bitlen a - 53);
          q = a div 2 ^ e;
          r = a mod 2 ^ e;
          q' = (if 2 * r > 2 ^ e \<or> (2 * r = 2 ^ e \<and> odd q) then q + 1 else q)
      in sgn x * (q' * 2 ^ e))"

text \<open>\<open>a * b\<close> on numbers: the exact product, rounded to a double.\<close>

definition js_mul :: "int \<Rightarrow> int \<Rightarrow> int" where
  "js_mul a b = round_to_double (a * b)"

text \<open>
  \<open>a ^ b\<close> converts both operands to signed 32-bit integers, combines them bitwise,
  and returns the signed 32-bit result as a number.
\<close>

definition js_xor :: "int \<Rightarrow> int \<Rightarrow> int" where
  "js_xor a b = sint ((word_of_int a :: 32 word) XOR (word_of_int b :: 32 word))"

text \<open>\<open>x >>> 0\<close> is the conversion to an unsigned 32-bit integer.\<close>

definition js_to_uint32 :: "int \<Rightarrow> int" where
  "js_to_uint32 x = uint (word_of_int x :: 32 word)"

text \<open>
  \<open>a % b\<close> on integers is the truncating remainder, with the sign of the dividend.
  (For \<open>b = 0\<close> JavaScript yields NaN; \<open>smod\<close> returns \<open>a\<close>. No table built by
  the constructor has size 0, and none reached from it: see \<open>reachable_kept\<close>.)
\<close>

definition js_rem :: "int \<Rightarrow> int \<Rightarrow> int" where
  "js_rem a b = a smod b"

section \<open>The hash table\<close>

type_synonym Bucket = "(jsstring \<times> jsstring) list"

datatype error = TypeError | RangeError

text \<open>
  The private fields of class \<open>Hashmap\<close>; \<open>size'\<close> is \<open>#size\<close>. The bucket
  array is a JavaScript array: a slot that was never assigned is a hole (\<open>None\<close>),
  which reads as \<open>undefined\<close>. \<open>console\<close> is the output of \<open>console.log\<close>: the
  sizes announced by "Resizing hashmap to size ...", oldest first.

  Sizes and counts are integers far below \<open>2^49\<close>. On these \<open>size * 2\<close> and
  \<open>Math.ceil(size * 0.5)\<close> are exact, and the double \<open>count / size\<close> is above the
  double 0.7, or below the double 0.4, exactly when the fraction is above 7/10, or below
  4/10: the model compares the fractions. A size that is not an integer and the limits of
  memory are outside the model.
\<close>

record Hashmap =
  size' :: int
  buckets :: "Bucket option list"
  count :: int
  console :: "int list"

definition loadFactor :: rat where
  "loadFactor = 7 / 10"

definition initialSize :: int where
  "initialSize = 4"

text \<open>Reading and writing an array slot; writing past the end extends the array with holes.\<close>

definition slot :: "Bucket option list \<Rightarrow> nat \<Rightarrow> Bucket option" where
  "slot bs i = (if i < length bs then bs ! i else None)"

definition set_slot :: "Bucket option list \<Rightarrow> nat \<Rightarrow> Bucket \<Rightarrow> Bucket option list" where
  "set_slot bs i b =
     (if i < length bs then bs[i := Some b]
      else bs @ replicate (i - length bs) None @ [Some b])"

text \<open>
  \<open>#new\<close>: resets \<open>count\<close> and returns \<open>size\<close> empty buckets (none for a negative
  size). \<open>Array.from\<close> throws a RangeError for a length of \<open>2^32\<close> or more; the
  constructor below has that branch. \<open>#resize\<close> passes such a length only from a table of
  size \<open>2^31\<close> or more that holds more than \<open>0.70 * size\<close> entries, which is beyond
  the limits of memory that the model leaves out.
\<close>

definition new :: "int \<Rightarrow> Hashmap \<Rightarrow> Bucket option list \<times> Hashmap" where
  "new sz h = (replicate (nat sz) (Some []), h\<lparr>count := 0\<rparr>)"

text \<open>
  The constructor; \<open>None\<close> is the omitted argument. \<open>size || initialSize\<close> takes the
  initial size when \<open>size\<close> is omitted or 0. It returns the new table, or the RangeError
  that \<open>Array.from\<close> throws for a length of \<open>2^32\<close> or more; it has no other check.
\<close>

definition constructor :: "int option \<Rightarrow> error + Hashmap" where
  "constructor sz =
     (let h0 = \<lparr>size' = 0, buckets = [], count = 0, console = []\<rparr>;
          h1 = h0\<lparr>size' := (case sz of None \<Rightarrow> initialSize
                                 | Some n \<Rightarrow> if n = 0 then initialSize else n)\<rparr>
      in if 2 ^ 32 \<le> size' h1 then Inl RangeError
         else (let (bs, h2) = new (size' h1) h1 in Inr (h2\<lparr>buckets := bs\<rparr>)))"

subsection \<open>Hashing\<close>

definition FNV_PRIME :: int where
  "FNV_PRIME = 16777619"

definition FNV_OFFSET_BASIS :: int where
  "FNV_OFFSET_BASIS = 2166136261"

fun hash_loop :: "int \<Rightarrow> jsstring \<Rightarrow> int" where
  "hash_loop hash [] = hash"
| "hash_loop hash (c # cs) =
     hash_loop (js_to_uint32 (js_mul (js_xor hash (uint c)) FNV_PRIME)) cs"

definition hash :: "jsstring \<Rightarrow> Hashmap \<Rightarrow> int" where
  "hash key h = js_rem (hash_loop FNV_OFFSET_BASIS key) (size' h)"

text \<open>
  \<open>#getBucket\<close> returns the bucket at the key's index, after putting an empty bucket
  there when the slot is a hole or lies past the end of the array. The returned bucket
  is the array's own: the callers' updates of it are updates of that slot.
\<close>

definition getBucket :: "jsstring \<Rightarrow> Hashmap \<Rightarrow> Bucket \<times> Hashmap" where
  "getBucket key h =
     (let bucketIndex = nat (hash key h) in
      case slot (buckets h) bucketIndex of
        None \<Rightarrow> ([], h\<lparr>buckets := set_slot (buckets h) bucketIndex []\<rparr>)
      | Some b \<Rightarrow> (b, h))"

subsection \<open>Insertion and rebuilding\<close>

text \<open>
  The loop of \<open>setItem\<close>: \<open>Some\<close> of the bucket with the value replaced when the
  key is found (the \<open>return\<close> inside the loop), \<open>None\<close> when the loop runs out.
\<close>

fun setItem_scan :: "jsstring \<Rightarrow> jsstring \<Rightarrow> Bucket \<Rightarrow> Bucket option" where
  "setItem_scan keyName keyValue [] = None"
| "setItem_scan keyName keyValue ((key, val) # es) =
     (if key = keyName then Some ((keyName, keyValue) # es)
      else map_option ((#) (key, val)) (setItem_scan keyName keyValue es))"

text \<open>
  \<open>setItem\<close>, \<open>#checkLoadFactor\<close> and \<open>#resize\<close> call each other. A method returns
  the state it leaves behind together with \<open>Inr ()\<close> for a normal return or \<open>Inl e\<close>
  for a thrown exception. The two loops of \<open>#resize\<close> are \<open>resize_buckets\<close> and
  \<open>resize_entries\<close>; iterating over a hole of the old array yields \<open>undefined\<close>,
  and the inner \<open>for ... of undefined\<close> throws a TypeError.
\<close>

function setItem :: "jsstring \<Rightarrow> jsstring \<Rightarrow> Hashmap \<Rightarrow> (error + unit) \<times> Hashmap"
  and checkLoadFactor :: "Hashmap \<Rightarrow> (error + unit) \<times> Hashmap"
  and resize :: "int \<Rightarrow> Hashmap \<Rightarrow> (error + unit) \<times> Hashmap"
  and resize_buckets :: "Bucket option list \<Rightarrow> Hashmap \<Rightarrow> (error + unit) \<times> Hashmap"
  and resize_entries :: "Bucket \<Rightarrow> Hashmap \<Rightarrow> (error + unit) \<times> Hashmap"
where
  "setItem keyName keyValue h =
     (let (bucket, h1) = getBucket keyName h;
          bucketIndex = nat (hash keyName h1)
      in case setItem_scan keyName keyValue bucket of
           Some bucket' \<Rightarrow> (Inr (), h1\<lparr>buckets := set_slot (buckets h1) bucketIndex bucket'\<rparr>)
         | None \<Rightarrow>
             checkLoadFactor
               (h1\<lparr>buckets := set_slot (buckets h1) bucketIndex (bucket @ [(keyName, keyValue)]),
                   count := count h1 + 1\<rparr>))"
| "checkLoadFactor h =
     (let currentLoadFactor = (of_int (count h) / of_int (size' h) :: rat)
      in if currentLoadFactor > loadFactor then resize (size' h * 2) h else (Inr (), h))"
| "resize newSize h =
     (let oldBuckets = buckets h;
          h1 = h\<lparr>size' := newSize\<rparr>;
          (bs, h2) = new newSize h1;
          h3 = h2\<lparr>buckets := bs\<rparr>;
          h4 = h3\<lparr>console := console h3 @ [newSize]\<rparr>
      in resize_buckets oldBuckets h4)"
| "resize_buckets [] h = (Inr (), h)"
| "resize_buckets (b # bs) h =
     (case b of
        None \<Rightarrow> (Inl TypeError, h)
      | Some bucket \<Rightarrow>
          (case resize_entries bucket h of
             (Inl e, h') \<Rightarrow> (Inl e, h')
           | (Inr u, h') \<Rightarrow> resize_buckets bs h'))"
| "resize_entries [] h = (Inr (), h)"
| "resize_entries ((key, val) # es) h =
     (case setItem key val h of
        (Inl e, h') \<Rightarrow> (Inl e, h')
      | (Inr u, h') \<Rightarrow> resize_entries es h')"
  by pat_completeness auto


subsection \<open>Lookup, removal, clearing, enumeration\<close>

fun getItem_scan :: "jsstring \<Rightarrow> Bucket \<Rightarrow> jsstring option" where
  "getItem_scan keyName [] = None"
| "getItem_scan keyName ((key, val) # es) =
     (if key = keyName then Some val else getItem_scan keyName es)"

text \<open>\<open>getItem\<close> returns \<open>None\<close> for \<open>null\<close>, and the state \<open>#getBucket\<close> left.\<close>

definition getItem :: "jsstring \<Rightarrow> Hashmap \<Rightarrow> jsstring option \<times> Hashmap" where
  "getItem keyName h =
     (let (bucket, h1) = getBucket keyName h in (getItem_scan keyName bucket, h1))"

definition checkUnderLoadFactor :: "Hashmap \<Rightarrow> (error + unit) \<times> Hashmap" where
  "checkUnderLoadFactor h =
     (let factorDecrease = (1 / 2 :: rat);
          underLoadFactor = (4 / 10 :: rat);
          currentLoadFactor = (of_int (count h) / of_int (size' h) :: rat)
      in if currentLoadFactor < underLoadFactor \<and> size' h > 10
         then resize \<lceil>of_int (size' h) * factorDecrease\<rceil> h
         else (Inr (), h))"

text \<open>
  The loop of \<open>removeItem\<close>: \<open>Some\<close> of the bucket without the first entry of that
  key (\<open>splice(i, 1)\<close>), \<open>None\<close> when the key is not in the bucket.
\<close>

fun removeItem_scan :: "jsstring \<Rightarrow> Bucket \<Rightarrow> Bucket option" where
  "removeItem_scan keyName [] = None"
| "removeItem_scan keyName ((key, val) # es) =
     (if key = keyName then Some es
      else map_option ((#) (key, val)) (removeItem_scan keyName es))"

definition removeItem :: "jsstring \<Rightarrow> Hashmap \<Rightarrow> (error + unit) \<times> Hashmap" where
  "removeItem keyName h =
     (let (bucket, h1) = getBucket keyName h;
          bucketIndex = nat (hash keyName h1)
      in case removeItem_scan keyName bucket of
           Some bucket' \<Rightarrow>
             checkUnderLoadFactor
               (h1\<lparr>buckets := set_slot (buckets h1) bucketIndex bucket',
                   count := count h1 - 1\<rparr>)
         | None \<Rightarrow> (Inr (), h1))"

definition clear :: "Hashmap \<Rightarrow> Hashmap" where
  "clear h = (let (bs, h1) = new initialSize h in h1\<lparr>buckets := bs\<rparr>)"

definition keyExists :: "jsstring \<Rightarrow> Hashmap \<Rightarrow> bool \<times> Hashmap" where
  "keyExists keyName h = (let (r, h1) = getItem keyName h in (r \<noteq> None, h1))"

text \<open>\<open>Array.prototype.flat\<close> concatenates the buckets and skips the holes.\<close>

definition flat :: "Bucket option list \<Rightarrow> Bucket" where
  "flat bs = concat (map (\<lambda>b. case b of None \<Rightarrow> [] | Some es \<Rightarrow> es) bs)"

definition keys :: "Hashmap \<Rightarrow> jsstring list" where
  "keys h = map fst (flat (buckets h))"

text \<open>
  The states a caller can bring a table into: construction, then any sequence of calls of
  the public methods, whether a call returns or throws (\<open>keys\<close> changes nothing).
\<close>

inductive reachable :: "Hashmap \<Rightarrow> bool" where
  constructed: "constructor sz = Inr h \<Longrightarrow> reachable h"
| after_setItem: "reachable h \<Longrightarrow> reachable (snd (setItem k v h))"
| after_getItem: "reachable h \<Longrightarrow> reachable (snd (getItem k h))"
| after_removeItem: "reachable h \<Longrightarrow> reachable (snd (removeItem k h))"
| after_clear: "reachable h \<Longrightarrow> reachable (clear h)"
| after_keyExists: "reachable h \<Longrightarrow> reachable (snd (keyExists k h))"

text \<open>Sequences of calls on one table, for stating scenarios: the state after each call.\<close>

datatype call =
  SetItem jsstring jsstring | GetItem jsstring | RemoveItem jsstring | Clear | KeyExists jsstring

fun after_call :: "call \<Rightarrow> Hashmap \<Rightarrow> Hashmap" where
  "after_call (SetItem k v) h = snd (setItem k v h)"
| "after_call (GetItem k) h = snd (getItem k h)"
| "after_call (RemoveItem k) h = snd (removeItem k h)"
| "after_call Clear h = clear h"
| "after_call (KeyExists k) h = snd (keyExists k h)"

fun after_calls :: "call list \<Rightarrow> Hashmap \<Rightarrow> Hashmap" where
  "after_calls [] h = h"
| "after_calls (c # cs) h = after_calls cs (after_call c h)"

text \<open>Calls used in the scenarios below.\<close>

definition abc :: "call list" where
  "abc = [SetItem (ascii ''a'') (ascii ''1''), SetItem (ascii ''b'') (ascii ''2''),
          SetItem (ascii ''c'') (ascii ''3'')]"

definition cefgh :: "call list" where
  "cefgh = map (\<lambda>k. SetItem (ascii k) (ascii ''v'')) [''c'', ''e'', ''f'', ''g'', ''h'']"

definition a_to_g :: "call list" where
  "a_to_g = map (\<lambda>k. SetItem (ascii k) (ascii ''v''))
              [''a'', ''b'', ''c'', ''d'', ''e'', ''f'', ''g'']"

definition a_to_d :: "call list" where
  "a_to_d = map (\<lambda>k. SetItem (ascii k) (ascii ''v'')) [''a'', ''b'', ''c'', ''d'']"

definition cenop :: "call list" where
  "cenop = map (\<lambda>k. SetItem (ascii k) (ascii ''v'')) [''c'', ''e'', ''n'', ''o'', ''p'']"

subsection \<open>The hash as the specification words it\<close>

text \<open>
  32-bit FNV-1a in exact integer arithmetic: from the offset basis, for each code unit,
  \<open>hash = hash XOR code_unit\<close>, then \<open>hash = (hash * prime) mod 2^32\<close>.
\<close>

definition fnv1a_spec :: "jsstring \<Rightarrow> int" where
  "fnv1a_spec key =
     foldl (\<lambda>hash code_unit. ((hash XOR uint code_unit) * 16777619) mod 2 ^ 32) 2166136261 key"

subsection \<open>The invariant of the reachable states\<close>

definition blen :: "Bucket option \<Rightarrow> nat" where
  "blen b = (case b of None \<Rightarrow> 0 | Some es \<Rightarrow> length es)"

definition stored :: "Hashmap \<Rightarrow> nat" where
  "stored h = length (flat (buckets h))"

definition counted :: "Hashmap \<Rightarrow> bool" where
  "counted h \<longleftrightarrow> count h = int (stored h)"

text \<open>
  \<open>count\<close> is the number of stored entries, \<open>size\<close> is not 0, and a table of
  positive size is filled to at most the load factor.
\<close>

definition kept :: "Hashmap \<Rightarrow> bool" where
  "kept h \<longleftrightarrow> counted h \<and> size' h \<noteq> 0 \<and> (0 < size' h \<longrightarrow> 10 * count h \<le> 7 * size' h)"

text \<open>
  Every entry lies in the bucket of its key's index, and no key is stored twice. \<open>ins\<close>
  is the map after inserting a list of entries one by one.
\<close>

definition placed :: "Hashmap \<Rightarrow> bool" where
  "placed h \<longleftrightarrow>
     distinct (map fst (flat (buckets h))) \<and>
     (\<forall>i b. slot (buckets h) i = Some b \<longrightarrow> (\<forall>e \<in> set b. nat (hash (fst e) h) = i))"

definition ins :: "(jsstring \<rightharpoonup> jsstring) \<Rightarrow> Bucket \<Rightarrow> (jsstring \<rightharpoonup> jsstring)" where
  "ins m es = foldl (\<lambda>m e. m(fst e \<mapsto> snd e)) m es"

text \<open>
  A table whose bucket array covers its positive size without holes. Construction with a
  positive size and every rebuild give such a table.
\<close>

definition dense :: "Hashmap \<Rightarrow> bool" where
  "dense h \<longleftrightarrow>
     kept h \<and> 0 < size' h \<and> None \<notin> set (buckets h) \<and> size' h \<le> int (length (buckets h))"

text \<open>
  The two states of a rebuild to \<open>n\<close> buckets that started with the console \<open>C\<close>: still
  at \<open>n\<close>, or grown once more, to \<open>2n\<close>.
\<close>

definition phase :: "int list \<Rightarrow> int \<Rightarrow> Hashmap \<Rightarrow> bool" where
  "phase C n g \<longleftrightarrow>
     kept g \<and> (size' g = n \<and> console g = C @ [n] \<or> size' g = n * 2 \<and> console g = C @ [n, n * 2])"

subsection \<open>Quantities for the termination of the rebuild\<close>

text \<open>
  \<open>step n h y\<close> bounds what inserting \<open>n\<close> entries into \<open>h\<close> can leave as \<open>y\<close>,
  and \<open>rebuilt n h y\<close> what \<open>#resize(n)\<close> can. \<open>call_rank\<close> orders the calls of the
  five functions: a rebuild starts from a table whose \<open>count\<close> is right, and from such a
  table a further rebuild doubles a size that the entries exceed by less each time.
\<close>

definition step :: "nat \<Rightarrow> Hashmap \<Rightarrow> Hashmap \<Rightarrow> bool" where
  "step n h y \<longleftrightarrow>
     (counted h \<longrightarrow> counted y \<and> stored y \<le> stored h + n \<and>
        (size' y = size' h \<or> 1 \<le> size' h \<and> size' h \<le> size' y)) \<and>
     (\<not> counted h \<longrightarrow> counted y \<or> stored y \<le> stored h + n \<and> size' y = size' h)"

definition rebuilt :: "int \<Rightarrow> Hashmap \<Rightarrow> Hashmap \<Rightarrow> bool" where
  "rebuilt n h y \<longleftrightarrow>
     counted y \<and> stored y \<le> stored h \<and> (size' y = n \<or> 1 \<le> n \<and> n \<le> size' y)"

definition uncounted :: "Hashmap \<Rightarrow> nat" where
  "uncounted h = (if counted h then 0 else 1)"

definition excess :: "nat \<Rightarrow> int \<Rightarrow> nat" where
  "excess n s = nat (10 * int n - 7 * s)"

definition call_rank ::
  "(jsstring \<times> jsstring \<times> Hashmap + Hashmap) +
   (int \<times> Hashmap + Bucket option list \<times> Hashmap + Bucket \<times> Hashmap)
   \<Rightarrow> nat \<times> nat \<times> nat \<times> nat" where
  "call_rank c =
     (case c of
        Inl (Inl (k, v, h)) \<Rightarrow> (uncounted h, excess (stored h + 1) (size' h), 1, 0)
      | Inl (Inr h) \<Rightarrow> (uncounted h, excess (stored h) (size' h), 0, 0)
      | Inr (Inl (n, h)) \<Rightarrow> (0, excess (stored h) n, 4, 0)
      | Inr (Inr (Inl (bs, h))) \<Rightarrow>
          (uncounted h, excess (stored h + length (flat bs)) (size' h), 3, length bs)
      | Inr (Inr (Inr (es, h))) \<Rightarrow>
          (uncounted h, excess (stored h + length es) (size' h), 2, length es))"

section \<open>Termination of insertion and rebuilding\<close>

lemma stored_simps [simp]:
  "stored (h\<lparr>count := c\<rparr>) = stored h"
  "stored (h\<lparr>size' := n\<rparr>) = stored h"
  "stored (h\<lparr>console := l\<rparr>) = stored h"
  "stored (h\<lparr>buckets := bs\<rparr>) = length (flat bs)"
  by (simp_all add: stored_def)

lemma length_flat: "length (flat bs) = sum_list (map blen bs)"
  by (induction bs) (auto simp: flat_def blen_def split: option.splits)

lemma blen_simps [simp]: "blen None = 0" "blen (Some es) = length es"
  by (simp_all add: blen_def)

lemma length_flat_set_slot:
  "length (flat (set_slot bs i b)) + blen (slot bs i) = length (flat bs) + length b"
proof (cases "i < length bs")
  case True
  have "blen (bs ! i) \<le> sum_list (map blen bs)"
    using True by (simp add: member_le_sum_list)
  then show ?thesis using True
    by (simp add: length_flat set_slot_def slot_def map_update sum_list_update)
next
  case False
  then show ?thesis
    by (simp add: length_flat set_slot_def slot_def)
qed

lemma getBucket_props:
  assumes "getBucket k h = (b, h1)"
  shows "slot (buckets h1) (nat (hash k h)) = Some b" "stored h1 = stored h"
    "size' h1 = size' h" "count h1 = count h" "console h1 = console h"
    "hash k h1 = hash k h"
  using assms length_flat_set_slot [of "buckets h" "nat (hash k h)" "[]"]
  by (auto simp: getBucket_def Let_def stored_def hash_def slot_def set_slot_def nth_append
      split: option.splits if_splits)

lemma setItem_scan_length: "setItem_scan k v b = Some b' \<Longrightarrow> length b' = length b"
  by (induction b arbitrary: b') (auto split: if_splits)

lemma step_refl: "step n h h"
  by (simp add: step_def)

lemma step_trans: "step n h y \<Longrightarrow> step m y z \<Longrightarrow> step (n + m) h z"
  unfolding step_def by (cases "counted h"; cases "counted y") auto

lemma step_mono: "step n h y \<Longrightarrow> n \<le> m \<Longrightarrow> step m h y"
  unfolding step_def by auto

lemma loadFactor_less_iff:
  "loadFactor < rat_of_int c / rat_of_int s \<longleftrightarrow> (0 < s \<and> 7 * s < 10 * c) \<or> (s < 0 \<and> 10 * c < 7 * s)"
proof -
  have eq: "rat_of_int (7 * s) < rat_of_int (10 * c) \<longleftrightarrow> 7 * s < 10 * c"
    "rat_of_int (10 * c) < rat_of_int (7 * s) \<longleftrightarrow> 10 * c < 7 * s"
    by (simp_all only: of_int_less_iff)
  consider "0 < s" | "s = 0" | "s < 0" by linarith
  then show ?thesis
  proof cases
    case 1
    then have "loadFactor < rat_of_int c / rat_of_int s \<longleftrightarrow> rat_of_int (7 * s) < rat_of_int (10 * c)"
      by (simp add: loadFactor_def field_simps)
    with 1 eq show ?thesis by simp
  next
    case 2
    then show ?thesis by (simp add: loadFactor_def)
  next
    case 3
    then have "loadFactor < rat_of_int c / rat_of_int s \<longleftrightarrow> rat_of_int (10 * c) < rat_of_int (7 * s)"
      by (simp add: loadFactor_def field_simps)
    with 3 eq show ?thesis by simp
  qed
qed

lemma load_exceeded:
  "loadFactor < rat_of_int c / rat_of_int s \<Longrightarrow> 0 \<le> c \<Longrightarrow> 1 \<le> s \<and> 7 * s < 10 * c"
  by (auto simp: loadFactor_less_iff)

lemma partial_props:
  "setItem_checkLoadFactor_resize_resize_buckets_resize_entries_dom (Inl (Inl (k, v, h)))
     \<Longrightarrow> step 1 h (snd (setItem k v h))"
  "setItem_checkLoadFactor_resize_resize_buckets_resize_entries_dom (Inl (Inr h))
     \<Longrightarrow> step 0 h (snd (checkLoadFactor h))"
  "setItem_checkLoadFactor_resize_resize_buckets_resize_entries_dom (Inr (Inl (n, h)))
     \<Longrightarrow> rebuilt n h (snd (resize n h))"
  "setItem_checkLoadFactor_resize_resize_buckets_resize_entries_dom (Inr (Inr (Inl (bs, h))))
     \<Longrightarrow> step (length (flat bs)) h (snd (resize_buckets bs h))"
  "setItem_checkLoadFactor_resize_resize_buckets_resize_entries_dom (Inr (Inr (Inr (es, h))))
     \<Longrightarrow> step (length es) h (snd (resize_entries es h))"
proof (induct k v h and h and n h and bs h and es h
    rule: setItem_checkLoadFactor_resize_resize_buckets_resize_entries.pinduct)
  case (1 keyName keyValue h)
  obtain bucket h1 where gb: "getBucket keyName h = (bucket, h1)"
    by (cases "getBucket keyName h")
  note g = getBucket_props [OF gb]
  show ?case
  proof (cases "setItem_scan keyName keyValue bucket")
    case None
    let ?h2 = "h1\<lparr>buckets := set_slot (buckets h1) (nat (hash keyName h1))
                  (bucket @ [(keyName, keyValue)]), count := count h1 + 1\<rparr>"
    have res: "setItem keyName keyValue h = checkLoadFactor ?h2"
      using None gb by (simp add: setItem.psimps [OF "1.hyps"(1)])
    have "step 0 ?h2 (snd (checkLoadFactor ?h2))"
      using "1.hyps"(2) [OF gb [symmetric] refl refl None] .
    moreover have "stored ?h2 = stored h + 1"
      using length_flat_set_slot [of "buckets h1" "nat (hash keyName h)" "bucket @ [(keyName, keyValue)]"] g
      by (simp add: stored_def)
    then have "step 1 h ?h2"
      using g by (simp add: step_def counted_def)
    ultimately show ?thesis
      using step_trans [of 1 h ?h2 0] res by simp
  next
    case (Some bucket')
    let ?y = "h1\<lparr>buckets := set_slot (buckets h1) (nat (hash keyName h1)) bucket'\<rparr>"
    have res: "setItem keyName keyValue h = (Inr (), ?y)"
      using Some gb by (simp add: setItem.psimps [OF "1.hyps"(1)])
    have "stored ?y = stored h"
      using length_flat_set_slot [of "buckets h1" "nat (hash keyName h)" bucket'] g
        setItem_scan_length [OF Some]
      by (simp add: stored_def)
    then show ?thesis
      using g res by (simp add: step_def counted_def)
  qed
next
  case (2 h)
  show ?case
  proof (cases "loadFactor < rat_of_int (count h) / rat_of_int (size' h)")
    case True
    then have res: "checkLoadFactor h = resize (size' h * 2) h"
      by (simp add: checkLoadFactor.psimps [OF "2.hyps"(1)])
    have rb: "rebuilt (size' h * 2) h (snd (resize (size' h * 2) h))"
      using "2.hyps"(2) [OF refl True] .
    show ?thesis
    proof (cases "counted h")
      case c: True
      then have "0 \<le> count h" by (simp add: counted_def)
      with True have "1 \<le> size' h" by (simp add: load_exceeded)
      with rb c show ?thesis unfolding res step_def rebuilt_def by auto
    next
      case False
      with rb show ?thesis unfolding res step_def rebuilt_def by auto
    qed
  next
    case False
    then show ?thesis
      by (simp add: checkLoadFactor.psimps [OF "2.hyps"(1)] step_refl)
  qed
next
  case (3 newSize h)
  define y where "y = h\<lparr>size' := newSize, count := 0\<rparr>"
  define xab where "xab = y\<lparr>buckets := replicate (nat newSize) (Some [])\<rparr>"
  define f where "f = xab\<lparr>console := console xab @ [newSize]\<rparr>"
  have nw: "(replicate (nat newSize) (Some []), y) = new newSize (h\<lparr>size' := newSize\<rparr>)"
    by (simp add: new_def y_def)
  have res: "resize newSize h = resize_buckets (buckets h) f"
    using nw [symmetric] by (simp add: resize.psimps [OF "3.hyps"(1)] f_def xab_def Let_def)
  have "step (length (flat (buckets h))) f (snd (resize_buckets (buckets h) f))"
    by (rule "3.hyps"(2) [OF refl refl refl nw xab_def f_def])
  moreover have "stored f = 0" "counted f" "size' f = newSize"
    by (simp_all add: f_def xab_def y_def counted_def length_flat)
  ultimately show ?case
    unfolding res step_def rebuilt_def by (auto simp: stored_def)
next
  case (4 h)
  then show ?case by (simp add: resize_buckets.psimps step_refl)
next
  case (5 b bs h)
  note eq = resize_buckets.psimps(2) [OF "5.hyps"(1)]
  show ?case
  proof (cases b)
    case None
    then show ?thesis unfolding eq by (simp add: step_refl)
  next
    case (Some x2)
    obtain r h' where re: "resize_entries x2 h = (r, h')"
      by (cases "resize_entries x2 h")
    have s1: "step (length x2) h h'"
      using "5.hyps"(2) [OF Some] re by simp
    have fl: "length (flat (b # bs)) = length x2 + length (flat bs)"
      using Some by (simp add: length_flat)
    show ?thesis
    proof (cases r)
      case (Inl e)
      then show ?thesis
        unfolding eq using Some re s1 fl by (simp add: step_mono)
    next
      case (Inr u)
      have "step (length (flat bs)) h' (snd (resize_buckets bs h'))"
        using "5.hyps"(3) [OF Some re [symmetric] Inr] .
      with s1 show ?thesis
        unfolding eq using Some re Inr fl step_trans by simp
    qed
  qed
next
  case (6 h)
  then show ?case by (simp add: resize_entries.psimps step_refl)
next
  case (7 key val es h)
  obtain r h' where re: "setItem key val h = (r, h')"
    by (cases "setItem key val h")
  have s1: "step 1 h h'"
    using "7.hyps"(2) re by simp
  show ?case
  proof (cases r)
    case (Inl e)
    then show ?thesis
      using re s1 by (simp add: resize_entries.psimps(2) [OF "7.hyps"(1)] step_mono)
  next
    case (Inr u)
    have "step (length es) h' (snd (resize_entries es h'))"
      using "7.hyps"(3) [OF re [symmetric] Inr] .
    with s1 show ?thesis
      using re Inr step_trans [of 1 h h' "length es"]
      by (simp add: resize_entries.psimps(2) [OF "7.hyps"(1)])
  qed
qed


lemma step_rank:
  assumes "step n h y" and "l' < l" and "m + n \<le> m'"
  shows "((uncounted y, excess (stored y + m) (size' y), t, l'),
          (uncounted h, excess (stored h + m') (size' h), t, l))
         \<in> less_than <*lex*> less_than <*lex*> less_than <*lex*> less_than"
  using assms unfolding step_def uncounted_def excess_def
  by (cases "counted h"; cases "counted y") auto

lemma rebuild_calls_terminate:
  "All setItem_checkLoadFactor_resize_resize_buckets_resize_entries_dom"
proof (relation "inv_image (less_than <*lex*> less_than <*lex*> less_than <*lex*> less_than) call_rank",
    goal_cases)
  case 1
  show ?case by (intro wf_inv_image wf_lex_prod wf_less_than)
next
  case (2 keyName keyValue h x bucket h1 xb)
  then have gb: "getBucket keyName h = (bucket, h1)" by simp
  note g = getBucket_props [OF gb]
  have "length (flat (set_slot (buckets h1) xb (bucket @ [(keyName, keyValue)]))) = stored h + 1"
    using length_flat_set_slot [of "buckets h1" "nat (hash keyName h)" "bucket @ [(keyName, keyValue)]"] g 2
    by (simp add: stored_def)
  then show ?case
    using g by (simp add: call_rank_def uncounted_def counted_def)
next
  case (3 h x)
  show ?case
  proof (cases "counted h")
    case True
    then have "0 \<le> count h" by (simp add: counted_def)
    with 3 have "1 \<le> size' h \<and> 7 * size' h < 10 * count h" by (simp add: load_exceeded)
    with True show ?thesis
      by (simp add: call_rank_def uncounted_def counted_def excess_def)
  next
    case False
    then show ?thesis by (simp add: call_rank_def uncounted_def)
  qed
next
  case (4 newSize h x xa xb xaa y xab xac)
  then show ?case
    by (simp add: call_rank_def uncounted_def counted_def new_def stored_def length_flat
        sum_list_replicate)
next
  case (5 b bs h x2)
  then show ?case
    by (auto simp: call_rank_def length_flat excess_def)
next
  case (6 b bs h x2 x y ba)
  have "step (length x2) h y"
    using partial_props(5) [OF 6(4)] 6(2) [symmetric] by simp
  then show ?case
    using 6(1) step_rank [of "length x2" h y "length bs" "length (b # bs)" "length (flat bs)" "length (flat (b # bs))" 3]
    by (simp add: call_rank_def length_flat)
next
  case (7 key val es h)
  then show ?case
    by (auto simp: call_rank_def excess_def)
next
  case (8 key val es h x y b)
  have "step 1 h y"
    using partial_props(1) [OF 8(3)] 8(1) [symmetric] by simp
  then show ?case
    using step_rank [of 1 h y "length es" "length ((key, val) # es)" "length es" "length ((key, val) # es)" 2]
    by (simp add: call_rank_def)
qed


termination setItem
  by (rule rebuild_calls_terminate)

declare setItem.simps [simp del] checkLoadFactor.simps [simp del] resize.simps [simp del]

section \<open>Hashing\<close>

lemma hash_loop_range: "0 \<le> h0 \<Longrightarrow> h0 < 2 ^ 32 \<Longrightarrow> 0 \<le> hash_loop h0 key \<and> hash_loop h0 key < 2 ^ 32"
proof (induction key arbitrary: h0)
  case Nil
  then show ?case by simp
next
  case (Cons c cs)
  have "0 \<le> js_to_uint32 x \<and> js_to_uint32 x < 2 ^ 32" for x
    using uint_lt2p [of "word_of_int x :: 32 word"] by (simp add: js_to_uint32_def)
  then show ?case using Cons.IH by simp
qed

lemma hash_true_modulo:
  "0 < size' h \<Longrightarrow> hash key h = hash_loop FNV_OFFSET_BASIS key mod size' h"
  using hash_loop_range [of FNV_OFFSET_BASIS key]
  by (simp add: hash_def js_rem_def signed_modulo_int_def FNV_OFFSET_BASIS_def sgn_if)

section \<open>The invariant\<close>

lemma stored_bucket_replaced:
  assumes "getBucket k h = (b, h1)"
  shows "length (flat (set_slot (buckets h1) (nat (hash k h1)) b')) + length b = stored h + length b'"
  using length_flat_set_slot [of "buckets h1" "nat (hash k h)" b'] getBucket_props [OF assms]
  by (simp add: stored_def)

lemma flat_replicate_empty [simp]: "flat (replicate n (Some [])) = []"
  by (induction n) (simp_all add: flat_def)

lemma kept_preserved:
  "kept h \<longrightarrow> kept (snd (setItem k v h))"
  "counted h \<and> size' h \<noteq> 0 \<longrightarrow> kept (snd (checkLoadFactor h))"
  "n \<noteq> 0 \<longrightarrow> kept (snd (resize n h))"
  "kept h \<longrightarrow> kept (snd (resize_buckets bs h))"
  "kept h \<longrightarrow> kept (snd (resize_entries es h))"
proof (induct k v h and h and n h and bs h and es h
    rule: setItem_checkLoadFactor_resize_resize_buckets_resize_entries.induct)
  case (1 keyName keyValue h)
  obtain bucket h1 where gb: "getBucket keyName h = (bucket, h1)"
    by (cases "getBucket keyName h")
  note g = getBucket_props [OF gb]
  show ?case
  proof (cases "setItem_scan keyName keyValue bucket")
    case None
    let ?h2 = "h1\<lparr>buckets := set_slot (buckets h1) (nat (hash keyName h1))
                  (bucket @ [(keyName, keyValue)]), count := count h1 + 1\<rparr>"
    have res: "setItem keyName keyValue h = checkLoadFactor ?h2"
      using None gb by (simp add: setItem.simps)
    have ih: "counted ?h2 \<and> size' ?h2 \<noteq> 0 \<longrightarrow> kept (snd (checkLoadFactor ?h2))"
      using 1 [OF gb [symmetric] refl refl None] .
    have "stored ?h2 = stored h + 1"
      using stored_bucket_replaced [OF gb, of "bucket @ [(keyName, keyValue)]"] by simp
    then have "kept h \<Longrightarrow> counted ?h2 \<and> size' ?h2 \<noteq> 0"
      using g by (simp add: kept_def counted_def)
    with ih show ?thesis unfolding res by blast
  next
    case (Some bucket')
    let ?y = "h1\<lparr>buckets := set_slot (buckets h1) (nat (hash keyName h1)) bucket'\<rparr>"
    have res: "setItem keyName keyValue h = (Inr (), ?y)"
      using Some gb by (simp add: setItem.simps)
    have "stored ?y = stored h"
      using stored_bucket_replaced [OF gb, of bucket'] setItem_scan_length [OF Some] by simp
    then show ?thesis
      using g unfolding res by (auto simp: kept_def counted_def)
  qed
next
  case (2 h)
  show ?case
  proof (cases "loadFactor < rat_of_int (count h) / rat_of_int (size' h)")
    case True
    then have res: "checkLoadFactor h = resize (size' h * 2) h"
      by (simp add: checkLoadFactor.simps)
    show ?thesis
      using 2 [OF refl True] unfolding res by simp
  next
    case False
    then have "checkLoadFactor h = (Inr (), h)" by (simp add: checkLoadFactor.simps)
    moreover have "0 < size' h \<Longrightarrow> 10 * count h \<le> 7 * size' h"
      using False by (auto simp: loadFactor_less_iff)
    ultimately show ?thesis by (simp add: kept_def)
  qed
next
  case (3 newSize h)
  define y where "y = h\<lparr>size' := newSize, count := 0\<rparr>"
  define xab where "xab = y\<lparr>buckets := replicate (nat newSize) (Some [])\<rparr>"
  define f where "f = xab\<lparr>console := console xab @ [newSize]\<rparr>"
  have nw: "(replicate (nat newSize) (Some []), y) = new newSize (h\<lparr>size' := newSize\<rparr>)"
    by (simp add: new_def y_def)
  have res: "resize newSize h = resize_buckets (buckets h) f"
    using nw [symmetric] by (simp add: resize.simps f_def xab_def Let_def)
  have "kept f \<longrightarrow> kept (snd (resize_buckets (buckets h) f))"
    by (rule 3 [OF refl refl refl nw xab_def f_def])
  moreover have "newSize \<noteq> 0 \<Longrightarrow> kept f"
    by (simp add: f_def xab_def y_def kept_def counted_def)
  ultimately show ?case unfolding res by blast
next
  case (4 h)
  then show ?case by simp
next
  case (5 b bs h)
  show ?case
  proof (cases b)
    case None
    then show ?thesis by simp
  next
    case (Some x2)
    obtain r h' where re: "resize_entries x2 h = (r, h')"
      by (cases "resize_entries x2 h")
    have s1: "kept h \<longrightarrow> kept h'"
      using 5(1) [OF Some] re by simp
    show ?thesis
    proof (cases r)
      case (Inl e)
      then show ?thesis using Some re s1 by simp
    next
      case (Inr u)
      have "kept h' \<longrightarrow> kept (snd (resize_buckets bs h'))"
        using 5(2) [OF Some re [symmetric] Inr] .
      with s1 show ?thesis using Some re Inr by simp
    qed
  qed
next
  case (6 h)
  then show ?case by simp
next
  case (7 key val es h)
  obtain r h' where re: "setItem key val h = (r, h')"
    by (cases "setItem key val h")
  have s1: "kept h \<longrightarrow> kept h'"
    using 7(1) re by simp
  show ?case
  proof (cases r)
    case (Inl e)
    then show ?thesis using re s1 by simp
  next
    case (Inr u)
    have "kept h' \<longrightarrow> kept (snd (resize_entries es h'))"
      using 7(2) [OF re [symmetric] Inr] .
    with s1 show ?thesis using re Inr by simp
  qed
qed

lemma removeItem_scan_length: "removeItem_scan k b = Some b' \<Longrightarrow> length b = Suc (length b')"
  by (induction b arbitrary: b') (auto split: if_splits)

lemma shrink_size: "\<lceil>rat_of_int s * (1 / 2)\<rceil> = (s + 1) div 2"
proof -
  have "\<lceil>rat_of_int s * (1 / 2)\<rceil> = \<lceil>rat_of_int s / rat_of_int 2\<rceil>" by simp
  also have "\<dots> = - (- s div 2)" by (rule ceiling_divide_eq_div)
  also have "\<dots> = (s + 1) div 2" by presburger
  finally show ?thesis .
qed

lemma underload_iff:
  "0 < s \<Longrightarrow> rat_of_int c / rat_of_int s < 4 / 10 \<longleftrightarrow> 10 * c < 4 * s"
proof -
  assume s: "0 < s"
  have "rat_of_int c / rat_of_int s < 4 / 10 \<longleftrightarrow> rat_of_int (10 * c) < rat_of_int (4 * s)"
    using s by (simp add: field_simps)
  also have "\<dots> \<longleftrightarrow> 10 * c < 4 * s" by (simp only: of_int_less_iff)
  finally show ?thesis .
qed

lemma checkUnderLoadFactor_eq:
  "checkUnderLoadFactor h =
     (if 10 * count h < 4 * size' h \<and> 10 < size' h then resize ((size' h + 1) div 2) h
      else (Inr (), h))"
proof (cases "10 < size' h")
  case True
  then have "0 < size' h" by simp
  from underload_iff [OF this] show ?thesis
    by (simp only: checkUnderLoadFactor_def Let_def shrink_size)
next
  case False
  then show ?thesis
    by (simp only: checkUnderLoadFactor_def Let_def simp_thms if_False)
qed

lemma kept_getBucket: "getBucket k h = (b, h1) \<Longrightarrow> kept h1 = kept h"
  using getBucket_props [of k h b h1] by (simp add: kept_def counted_def)

lemma kept_getItem: "kept (snd (getItem k h)) = kept h"
  by (cases "getBucket k h") (simp add: getItem_def kept_getBucket)

lemma kept_removeItem: "kept h \<Longrightarrow> kept (snd (removeItem k h))"
proof -
  assume kh: "kept h"
  obtain bucket h1 where gb: "getBucket k h = (bucket, h1)"
    by (cases "getBucket k h")
  note g = getBucket_props [OF gb]
  show ?thesis
  proof (cases "removeItem_scan k bucket")
    case None
    then show ?thesis using gb kh kept_getBucket [OF gb] by (simp add: removeItem_def)
  next
    case (Some bucket')
    let ?h2 = "h1\<lparr>buckets := set_slot (buckets h1) (nat (hash k h1)) bucket', count := count h1 - 1\<rparr>"
    have res: "removeItem k h = checkUnderLoadFactor ?h2"
      using Some gb by (simp add: removeItem_def)
    have "stored ?h2 + 1 = stored h"
      using stored_bucket_replaced [OF gb, of bucket'] removeItem_scan_length [OF Some] by simp
    then have k2: "kept ?h2"
      using kh g by (auto simp: kept_def counted_def)
    show ?thesis
    proof (cases "10 * count ?h2 < 4 * size' ?h2 \<and> 10 < size' ?h2")
      case True
      then have "(size' ?h2 + 1) div 2 \<noteq> 0" by presburger
      then show ?thesis
        using True kept_preserved(3) [of "(size' ?h2 + 1) div 2" ?h2]
        unfolding res checkUnderLoadFactor_eq by simp
    next
      case False
      then show ?thesis using k2 unfolding res checkUnderLoadFactor_eq by auto
    qed
  qed
qed

lemma kept_clear: "kept h \<Longrightarrow> kept (clear h)"
  by (simp add: clear_def new_def kept_def counted_def)

lemma constructor_eq:
  "constructor sz =
     (let n = (case sz of None \<Rightarrow> 4 | Some n \<Rightarrow> if n = 0 then 4 else n)
      in if 2 ^ 32 \<le> n then Inl RangeError
         else Inr \<lparr>size' = n, buckets = replicate (nat n) (Some []), count = 0, console = []\<rparr>)"
  by (cases sz) (simp_all add: constructor_def new_def initialSize_def)

lemma constructor_returns:
  "(case sz of None \<Rightarrow> True | Some n \<Rightarrow> n < 2 ^ 32) \<Longrightarrow>
     constructor sz = Inr (projr (constructor sz))"
  by (cases sz) (simp_all add: constructor_eq)

lemma reachable_constructed:
  "(case sz of None \<Rightarrow> True | Some n \<Rightarrow> n < 2 ^ 32) \<Longrightarrow> reachable (projr (constructor sz))"
  by (rule constructed [of sz]) (rule constructor_returns)

lemma kept_constructor: "constructor sz = Inr h \<Longrightarrow> kept h"
  by (cases sz)
    (auto simp: constructor_eq kept_def counted_def stored_def split: if_splits)

lemma reachable_kept: "reachable h \<Longrightarrow> kept h"
proof (induction rule: reachable.induct)
  case (constructed sz h)
  then show ?case by (rule kept_constructor)
next
  case (after_setItem h k v)
  then show ?case using kept_preserved(1) by blast
next
  case (after_getItem h k)
  then show ?case by (simp add: kept_getItem)
next
  case (after_removeItem h k)
  from after_removeItem.IH show ?case by (rule kept_removeItem)
next
  case (after_clear h)
  from after_clear.IH show ?case by (rule kept_clear)
next
  case (after_keyExists h k)
  then show ?case
    using kept_getItem [of k h] by (simp add: keyExists_def split_beta)
qed

lemma reachable_after_calls: "reachable h \<Longrightarrow> reachable (after_calls cs h)"
proof (induction cs arbitrary: h)
  case Nil
  then show ?case by simp
next
  case (Cons c cs)
  from Cons.prems have "reachable (after_call c h)"
    by (cases c) (auto intro: reachable.intros)
  then show ?case using Cons.IH by simp
qed

section \<open>What a call writes to the console\<close>

lemma console_grows:
  "prefix (console h) (console (snd (setItem k v h)))"
  "prefix (console h) (console (snd (checkLoadFactor h)))"
  "prefix (console h @ [n]) (console (snd (resize n h)))"
  "prefix (console h) (console (snd (resize_buckets bs h)))"
  "prefix (console h) (console (snd (resize_entries es h)))"
proof (induct k v h and h and n h and bs h and es h
    rule: setItem_checkLoadFactor_resize_resize_buckets_resize_entries.induct)
  case (1 keyName keyValue h)
  obtain bucket h1 where gb: "getBucket keyName h = (bucket, h1)"
    by (cases "getBucket keyName h")
  note g = getBucket_props [OF gb]
  show ?case
  proof (cases "setItem_scan keyName keyValue bucket")
    case None
    let ?h2 = "h1\<lparr>buckets := set_slot (buckets h1) (nat (hash keyName h1))
                  (bucket @ [(keyName, keyValue)]), count := count h1 + 1\<rparr>"
    have res: "setItem keyName keyValue h = checkLoadFactor ?h2"
      using None gb by (simp add: setItem.simps)
    have "prefix (console ?h2) (console (snd (checkLoadFactor ?h2)))"
      using 1 [OF gb [symmetric] refl refl None] .
    then show ?thesis unfolding res using g(5) by simp
  next
    case (Some bucket')
    then show ?thesis using gb g(5) by (simp add: setItem.simps)
  qed
next
  case (2 h)
  show ?case
  proof (cases "loadFactor < rat_of_int (count h) / rat_of_int (size' h)")
    case True
    then have res: "checkLoadFactor h = resize (size' h * 2) h"
      by (simp add: checkLoadFactor.simps)
    have "prefix (console h @ [size' h * 2]) (console (snd (resize (size' h * 2) h)))"
      using 2 [OF refl True] .
    then show ?thesis unfolding res by (rule append_prefixD)
  next
    case False
    then show ?thesis by (simp add: checkLoadFactor.simps)
  qed
next
  case (3 newSize h)
  define y where "y = h\<lparr>size' := newSize, count := 0\<rparr>"
  define xab where "xab = y\<lparr>buckets := replicate (nat newSize) (Some [])\<rparr>"
  define f where "f = xab\<lparr>console := console xab @ [newSize]\<rparr>"
  have nw: "(replicate (nat newSize) (Some []), y) = new newSize (h\<lparr>size' := newSize\<rparr>)"
    by (simp add: new_def y_def)
  have res: "resize newSize h = resize_buckets (buckets h) f"
    using nw [symmetric] by (simp add: resize.simps f_def xab_def Let_def)
  have "prefix (console f) (console (snd (resize_buckets (buckets h) f)))"
    by (rule 3 [OF refl refl refl nw xab_def f_def])
  moreover have "console f = console h @ [newSize]"
    by (simp add: f_def xab_def y_def)
  ultimately show ?case unfolding res by simp
next
  case (4 h)
  then show ?case by simp
next
  case (5 b bs h)
  show ?case
  proof (cases b)
    case None
    then show ?thesis by simp
  next
    case (Some x2)
    obtain r h' where re: "resize_entries x2 h = (r, h')"
      by (cases "resize_entries x2 h")
    have s1: "prefix (console h) (console h')"
      using 5(1) [OF Some] re by simp
    show ?thesis
    proof (cases r)
      case (Inl e)
      then show ?thesis using Some re s1 by simp
    next
      case (Inr u)
      have "prefix (console h') (console (snd (resize_buckets bs h')))"
        using 5(2) [OF Some re [symmetric] Inr] .
      with s1 have "prefix (console h) (console (snd (resize_buckets bs h')))"
        by (rule prefix_order.order_trans)
      then show ?thesis using Some re Inr by simp
    qed
  qed
next
  case (6 h)
  then show ?case by simp
next
  case (7 key val es h)
  obtain r h' where re: "setItem key val h = (r, h')"
    by (cases "setItem key val h")
  have s1: "prefix (console h) (console h')"
    using 7(1) re by simp
  show ?case
  proof (cases r)
    case (Inl e)
    then show ?thesis using re s1 by simp
  next
    case (Inr u)
    have "prefix (console h') (console (snd (resize_entries es h')))"
      using 7(2) [OF re [symmetric] Inr] .
    with s1 have "prefix (console h) (console (snd (resize_entries es h')))"
      by (rule prefix_order.order_trans)
    then show ?thesis using re Inr by simp
  qed
qed

section \<open>Inserts below and above the load factor\<close>

lemma setItem_scan_None: "setItem_scan k v b = None \<longleftrightarrow> k \<notin> fst ` set b"
  by (induction b) (auto split: if_splits)

lemma getItem_scan_None: "getItem_scan k b = None \<longleftrightarrow> k \<notin> fst ` set b"
  by (induction b) (auto split: if_splits)

lemma removeItem_scan_None: "removeItem_scan k b = None \<longleftrightarrow> k \<notin> fst ` set b"
  by (induction b) (auto split: if_splits)

lemma getItem_None: "getBucket k h = (b, h1) \<Longrightarrow> fst (getItem k h) = None \<longleftrightarrow> k \<notin> fst ` set b"
  by (simp add: getItem_def getItem_scan_None)

lemma checkLoadFactor_eq:
  "checkLoadFactor h =
     (if 0 < size' h \<and> 7 * size' h < 10 * count h \<or> size' h < 0 \<and> 10 * count h < 7 * size' h
      then resize (size' h * 2) h else (Inr (), h))"
  by (simp only: checkLoadFactor.simps Let_def loadFactor_less_iff)

lemma setItem_new_key:
  assumes "getBucket k h = (b, h1)" and "k \<notin> fst ` set b"
  shows "setItem k v h =
    checkLoadFactor (h1\<lparr>buckets := set_slot (buckets h1) (nat (hash k h)) (b @ [(k, v)]),
                        count := count h + 1\<rparr>)"
proof -
  from assms(2) have "setItem_scan k v b = None" by (simp add: setItem_scan_None)
  then show ?thesis
    using assms(1) getBucket_props [OF assms(1)] by (simp add: setItem.simps Let_def)
qed

lemma setItem_old_key:
  assumes "getBucket k h = (b, h1)" and "k \<in> fst ` set b"
  shows "\<exists>b'. setItem k v h = (Inr (), h1\<lparr>buckets := set_slot (buckets h1) (nat (hash k h)) b'\<rparr>)"
proof -
  from assms(2) obtain b' where "setItem_scan k v b = Some b'"
    using setItem_scan_None [of k v b] by (cases "setItem_scan k v b") auto
  then have "setItem k v h = (Inr (), h1\<lparr>buckets := set_slot (buckets h1) (nat (hash k h)) b'\<rparr>)"
    using assms(1) getBucket_props [OF assms(1)] by (simp add: setItem.simps Let_def)
  then show ?thesis ..
qed

lemma quiet_setItem:
  assumes "0 < size' h" and "10 * (count h + 1) \<le> 7 * size' h"
  shows "console (snd (setItem k v h)) = console h \<and> size' (snd (setItem k v h)) = size' h \<and>
         count (snd (setItem k v h)) \<le> count h + 1 \<and> fst (setItem k v h) = Inr ()"
proof -
  obtain b h1 where gb: "getBucket k h = (b, h1)"
    by (cases "getBucket k h")
  note g = getBucket_props [OF gb]
  show ?thesis
  proof (cases "k \<in> fst ` set b")
    case True
    from setItem_old_key [OF gb True, of v] show ?thesis using g by auto
  next
    case False
    show ?thesis
      using assms g unfolding setItem_new_key [OF gb False] checkLoadFactor_eq by simp
  qed
qed

lemma quiet_entries:
  assumes "0 < size' h" and "10 * (count h + int (length es)) \<le> 7 * size' h"
  shows "console (snd (resize_entries es h)) = console h \<and>
         size' (snd (resize_entries es h)) = size' h \<and>
         count (snd (resize_entries es h)) \<le> count h + int (length es)"
  using assms
proof (induction es arbitrary: h)
  case Nil
  then show ?case by simp
next
  case (Cons e es)
  obtain k v where e: "e = (k, v)" by (cases e)
  obtain r h' where re: "setItem k v h = (r, h')" by (cases "setItem k v h")
  have q: "console h' = console h \<and> size' h' = size' h \<and> count h' \<le> count h + 1 \<and> r = Inr ()"
    using quiet_setItem [of h k v] Cons.prems re by simp
  then have "0 < size' h'" "10 * (count h' + int (length es)) \<le> 7 * size' h'"
    using Cons.prems by simp_all
  from Cons.IH [OF this] show ?case
    using q re e by simp
qed

lemma quiet_buckets:
  assumes "0 < size' h" and "10 * (count h + int (length (flat bs))) \<le> 7 * size' h"
  shows "console (snd (resize_buckets bs h)) = console h \<and>
         size' (snd (resize_buckets bs h)) = size' h \<and>
         count (snd (resize_buckets bs h)) \<le> count h + int (length (flat bs))"
  using assms
proof (induction bs arbitrary: h)
  case Nil
  then show ?case by simp
next
  case (Cons b bs)
  show ?case
  proof (cases b)
    case None
    then show ?thesis by (simp add: length_flat)
  next
    case (Some es)
    obtain r h' where re: "resize_entries es h = (r, h')" by (cases "resize_entries es h")
    have fl: "length (flat (b # bs)) = length es + length (flat bs)"
      using Some by (simp add: length_flat)
    have q: "console h' = console h \<and> size' h' = size' h \<and> count h' \<le> count h + int (length es)"
      using quiet_entries [of h es] Cons.prems re fl by simp
    show ?thesis
    proof (cases r)
      case (Inl err)
      then show ?thesis using Some re q fl by simp
    next
      case (Inr u)
      have "0 < size' h'" "10 * (count h' + int (length (flat bs))) \<le> 7 * size' h'"
        using q Cons.prems fl by simp_all
      from Cons.IH [OF this] show ?thesis
        using Some re Inr q fl by simp
    qed
  qed
qed

lemma resize_unfold:
  "resize n h =
     resize_buckets (buckets h)
       (h\<lparr>size' := n, count := 0, buckets := replicate (nat n) (Some []),
           console := console h @ [n]\<rparr>)"
  by (simp add: resize.simps new_def)

lemma quiet_resize:
  assumes "0 < n" and "10 * int (stored h) \<le> 7 * n"
  shows "console (snd (resize n h)) = console h @ [n] \<and> size' (snd (resize n h)) = n"
  using quiet_buckets [of "h\<lparr>size' := n, count := 0, buckets := replicate (nat n) (Some []),
           console := console h @ [n]\<rparr>" "buckets h"] assms
  unfolding resize_unfold by (simp add: stored_def)

lemma grow_once:
  assumes "kept h" and gb: "getBucket k h = (b, h1)" and new: "k \<notin> fst ` set b"
    and over: "loadFactor < rat_of_int (count h + 1) / rat_of_int (size' h)"
  shows "console (snd (setItem k v h)) = console h @ [size' h * 2] \<and>
         size' (snd (setItem k v h)) = size' h * 2"
proof -
  let ?h2 = "h1\<lparr>buckets := set_slot (buckets h1) (nat (hash k h)) (b @ [(k, v)]),
                  count := count h + 1\<rparr>"
  note g = getBucket_props [OF gb]
  have c: "count h = int (stored h)" and band: "0 < size' h \<longrightarrow> 10 * count h \<le> 7 * size' h"
    using assms(1) by (auto simp: kept_def counted_def)
  from over have "0 < size' h \<and> 7 * size' h < 10 * (count h + 1) \<or>
      size' h < 0 \<and> 10 * (count h + 1) < 7 * size' h"
    by (simp only: loadFactor_less_iff)
  with c have pos: "0 < size' h" and ex: "7 * size' h < 10 * (count h + 1)"
    by auto
  have st: "stored ?h2 = stored h + 1"
    using stored_bucket_replaced [OF gb, of "b @ [(k, v)]"] g by simp
  have "10 * (count h + 1) \<le> 7 * (size' h * 2)"
    using band pos by (cases "size' h = 1") presburger+
  with st c have "10 * int (stored ?h2) \<le> 7 * (size' h * 2)"
    by simp
  from quiet_resize [OF _ this] pos
  have "console (snd (resize (size' h * 2) ?h2)) = console ?h2 @ [size' h * 2] \<and>
        size' (snd (resize (size' h * 2) ?h2)) = size' h * 2" by simp
  moreover have "setItem k v h = resize (size' h * 2) ?h2"
    unfolding setItem_new_key [OF gb new] checkLoadFactor_eq using pos ex g by simp
  ultimately show ?thesis using g by simp
qed

section \<open>The stored entries\<close>

lemma flat_append: "flat (xs @ ys) = flat xs @ flat ys"
  by (simp add: flat_def)

lemma flat_Cons [simp]: "flat (None # bs) = flat bs" "flat (Some b # bs) = b @ flat bs"
  "flat [] = []"
  by (simp_all add: flat_def)

lemma flat_replicate_None [simp]: "flat (replicate n None) = []"
  by (induction n) simp_all

lemma flat_update:
  "i < length bs \<Longrightarrow>
   flat (bs[i := x]) = flat (take i bs) @ flat [x] @ flat (drop (Suc i) bs)"
  by (simp add: flat_def upd_conv_take_nth_drop)

lemma flat_nth:
  "i < length bs \<Longrightarrow> flat bs = flat (take i bs) @ flat [bs ! i] @ flat (drop (Suc i) bs)"
  using flat_update [of i bs "bs ! i"] by simp

lemma flat_fill_hole: "slot bs i = None \<Longrightarrow> flat (set_slot bs i []) = flat bs"
proof (cases "i < length bs")
  case True
  assume "slot bs i = None"
  with True have "bs ! i = None" by (simp add: slot_def)
  with True show ?thesis
    using flat_update [of i bs "Some []"] flat_nth [of i bs] by (simp add: set_slot_def)
next
  case False
  then show ?thesis by (simp add: set_slot_def flat_append)
qed

lemma set_flat_set_slot: "set (flat (set_slot bs i b)) \<subseteq> set (flat bs) \<union> set b"
proof (cases "i < length bs")
  case True
  then show ?thesis
    using flat_update [of i bs "Some b"] flat_nth [of i bs] by (auto simp: set_slot_def)
next
  case False
  then show ?thesis by (simp add: set_slot_def flat_append)
qed

lemma bucket_subset_flat: "slot bs i = Some b \<Longrightarrow> set b \<subseteq> set (flat bs)"
proof -
  assume a: "slot bs i = Some b"
  then have "i < length bs" "bs ! i = Some b" by (auto simp: slot_def split: if_splits)
  then show ?thesis using flat_nth [of i bs] by auto
qed

lemma getBucket_flat: "getBucket k h = (b, h1) \<Longrightarrow> flat (buckets h1) = flat (buckets h)"
  by (auto simp: getBucket_def Let_def flat_fill_hole split: option.splits)

lemma getBucket_subset: "getBucket k h = (b, h1) \<Longrightarrow> set b \<subseteq> set (flat (buckets h))"
  using getBucket_props(1) [of k h b h1] bucket_subset_flat [of "buckets h1" "nat (hash k h)" b]
    getBucket_flat [of k h b h1] by simp

lemma insert_below_load:
  assumes "0 < size' h" and "10 * (count h + 1) \<le> 7 * size' h"
    and "k \<notin> fst ` set (flat (buckets h))"
  shows "size' (snd (setItem k v h)) = size' h \<and> console (snd (setItem k v h)) = console h \<and>
         count (snd (setItem k v h)) = count h + 1 \<and>
         fst ` set (flat (buckets (snd (setItem k v h)))) \<subseteq> insert k (fst ` set (flat (buckets h)))"
proof -
  obtain b h1 where gb: "getBucket k h = (b, h1)"
    by (cases "getBucket k h")
  note g = getBucket_props [OF gb]
  have new: "k \<notin> fst ` set b"
    using getBucket_subset [OF gb] assms(3) by auto
  have "set (flat (set_slot (buckets h1) (nat (hash k h)) (b @ [(k, v)])))
      \<subseteq> set (flat (buckets h)) \<union> set (b @ [(k, v)])"
    using set_flat_set_slot [of "buckets h1" "nat (hash k h)" "b @ [(k, v)]"] getBucket_flat [OF gb]
    by simp
  then have "fst ` set (flat (set_slot (buckets h1) (nat (hash k h)) (b @ [(k, v)])))
      \<subseteq> insert k (fst ` set (flat (buckets h)))"
    using getBucket_subset [OF gb] by fastforce
  then show ?thesis
    using assms(1,2) g unfolding setItem_new_key [OF gb new] checkLoadFactor_eq by simp
qed

lemma absent_if_not_stored:
  "k \<notin> fst ` set (flat (buckets h)) \<Longrightarrow> getBucket k h = (b, h1) \<Longrightarrow> k \<notin> fst ` set b"
  using getBucket_subset [of k h b h1] by auto

lemma within_load_iff:
  "0 < s \<Longrightarrow> rat_of_int c / rat_of_int s \<le> loadFactor \<longleftrightarrow> 10 * c \<le> 7 * s"
  using loadFactor_less_iff [of c s] by (simp only: not_less [symmetric]) auto

lemma setItem_new_key_grows:
  assumes "fst (getItem k h) = None"
    and "loadFactor < rat_of_int (count h + 1) / rat_of_int (size' h)"
  shows "prefix (console h @ [size' h * 2]) (console (snd (setItem k v h)))"
proof -
  obtain b h1 where gb: "getBucket k h = (b, h1)"
    by (cases "getBucket k h")
  note g = getBucket_props [OF gb]
  let ?h2 = "h1\<lparr>buckets := set_slot (buckets h1) (nat (hash k h)) (b @ [(k, v)]),
                  count := count h + 1\<rparr>"
  have new: "k \<notin> fst ` set b" using assms(1) getItem_None [OF gb] by simp
  from assms(2) have "0 < size' h \<and> 7 * size' h < 10 * (count h + 1) \<or>
      size' h < 0 \<and> 10 * (count h + 1) < 7 * size' h"
    by (simp only: loadFactor_less_iff)
  then have "setItem k v h = resize (size' h * 2) ?h2"
    unfolding setItem_new_key [OF gb new] checkLoadFactor_eq using g by simp
  then show ?thesis
    using console_grows(3) [of ?h2 "size' h * 2"] g by simp
qed

lemma setItem_new_key_stays:
  assumes "fst (getItem k h) = None"
    and "\<not> loadFactor < rat_of_int (count h + 1) / rat_of_int (size' h)"
  shows "console (snd (setItem k v h)) = console h \<and> size' (snd (setItem k v h)) = size' h"
proof -
  obtain b h1 where gb: "getBucket k h = (b, h1)"
    by (cases "getBucket k h")
  note g = getBucket_props [OF gb]
  have new: "k \<notin> fst ` set b" using assms(1) getItem_None [OF gb] by simp
  from assms(2) have "\<not> (0 < size' h \<and> 7 * size' h < 10 * (count h + 1) \<or>
      size' h < 0 \<and> 10 * (count h + 1) < 7 * size' h)"
    using loadFactor_less_iff [of "count h + 1" "size' h"] by blast
  then show ?thesis
    unfolding setItem_new_key [OF gb new] checkLoadFactor_eq using g by auto
qed

lemma third_key_grows:
  assumes "distinct [k1, k2, k3]"
  shows "size' (after_calls [SetItem k1 v1, SetItem k2 v2] (projr (constructor None))) = 4 \<and>
      console (after_calls [SetItem k1 v1, SetItem k2 v2] (projr (constructor None))) = [] \<and>
      size' (after_calls [SetItem k1 v1, SetItem k2 v2, SetItem k3 v3] (projr (constructor None))) = 8 \<and>
      console (after_calls [SetItem k1 v1, SetItem k2 v2, SetItem k3 v3] (projr (constructor None))) = [8]"
proof -
  define h0 where "h0 = projr (constructor None)"
  define y1 where "y1 = snd (setItem k1 v1 h0)"
  define y2 where "y2 = snd (setItem k2 v2 y1)"
  define y3 where "y3 = snd (setItem k3 v3 y2)"
  have h0: "size' h0 = 4" "count h0 = 0" "console h0 = []" "flat (buckets h0) = []"
    by (simp_all add: h0_def constructor_eq)
  have y1: "size' y1 = 4" "console y1 = []" "count y1 = 1"
    "fst ` set (flat (buckets y1)) \<subseteq> {k1}"
    using insert_below_load [of h0 k1 v1] h0 by (simp_all add: y1_def)
  have "k2 \<notin> fst ` set (flat (buckets y1))" using y1(4) assms by auto
  then have i2: "size' y2 = size' y1 \<and> console y2 = console y1 \<and> count y2 = count y1 + 1 \<and>
      fst ` set (flat (buckets y2)) \<subseteq> insert k2 (fst ` set (flat (buckets y1)))"
    unfolding y2_def using y1(1,3) by (intro insert_below_load) simp_all
  then have "fst ` set (flat (buckets y2)) \<subseteq> insert k2 (fst ` set (flat (buckets y1)))"
    by simp
  with y1(4) have "fst ` set (flat (buckets y2)) \<subseteq> {k1, k2}" by blast
  with i2 y1 have y2: "size' y2 = 4" "console y2 = []" "count y2 = 2"
    "fst ` set (flat (buckets y2)) \<subseteq> {k1, k2}"
    by simp_all
  have "reachable h0"
    unfolding h0_def by (rule reachable_constructed) simp
  then have r: "reachable y2"
    unfolding y2_def y1_def by (intro after_setItem)
  obtain b h1 where gb: "getBucket k3 y2 = (b, h1)"
    by (cases "getBucket k3 y2")
  have "k3 \<notin> fst ` set (flat (buckets y2))" using y2(4) assms by auto
  then have new: "k3 \<notin> fst ` set b" using gb by (rule absent_if_not_stored)
  have over: "loadFactor < rat_of_int (count y2 + 1) / rat_of_int (size' y2)"
    unfolding y2 by (simp add: loadFactor_def)
  have y3: "console y3 = [8]" "size' y3 = 8"
    using grow_once [OF reachable_kept [OF r] gb new over, of v3] y2 by (simp_all add: y3_def)
  show ?thesis
    using y2 y3 by (simp add: y3_def y2_def y1_def h0_def)
qed

section \<open>Removal\<close>

lemma removeItem_present:
  assumes "getBucket k h = (b, h1)" and "k \<in> fst ` set b"
  shows "\<exists>b'. removeItem k h =
    checkUnderLoadFactor (h1\<lparr>buckets := set_slot (buckets h1) (nat (hash k h)) b',
                             count := count h - 1\<rparr>)"
proof -
  from assms(2) obtain b' where "removeItem_scan k b = Some b'"
    using removeItem_scan_None [of k b] by (cases "removeItem_scan k b") auto
  then have "removeItem k h =
    checkUnderLoadFactor (h1\<lparr>buckets := set_slot (buckets h1) (nat (hash k h)) b',
                             count := count h - 1\<rparr>)"
    using assms(1) getBucket_props [OF assms(1)] by (simp add: removeItem_def Let_def)
  then show ?thesis ..
qed

lemma removeItem_absent:
  assumes "getBucket k h = (b, h1)" and "k \<notin> fst ` set b"
  shows "removeItem k h = (Inr (), h1)"
proof -
  from assms(2) have "removeItem_scan k b = None" by (simp add: removeItem_scan_None)
  then show ?thesis using assms(1) by (simp add: removeItem_def Let_def)
qed

lemma removeItem_small:
  assumes "size' h \<le> 10"
  shows "console (snd (removeItem k h)) = console h \<and> size' (snd (removeItem k h)) = size' h"
proof -
  obtain b h1 where gb: "getBucket k h = (b, h1)"
    by (cases "getBucket k h")
  note g = getBucket_props [OF gb]
  show ?thesis
  proof (cases "k \<in> fst ` set b")
    case True
    from removeItem_present [OF gb True] obtain b' where
      "removeItem k h = checkUnderLoadFactor
         (h1\<lparr>buckets := set_slot (buckets h1) (nat (hash k h)) b', count := count h - 1\<rparr>)" ..
    then show ?thesis using assms g by (simp add: checkUnderLoadFactor_eq)
  next
    case False
    from removeItem_absent [OF gb False] show ?thesis using g by simp
  qed
qed

lemma removeItem_shrinks:
  assumes "fst (getItem k h) \<noteq> None"
    and "rat_of_int (count h - 1) / rat_of_int (size' h) < 4 / 10" and "10 < size' h"
  shows "prefix (console h @ [\<lceil>rat_of_int (size' h) * (1 / 2)\<rceil>]) (console (snd (removeItem k h)))"
proof -
  obtain b h1 where gb: "getBucket k h = (b, h1)"
    by (cases "getBucket k h")
  note g = getBucket_props [OF gb]
  have "k \<in> fst ` set b" using assms(1) getItem_None [OF gb] by simp
  from removeItem_present [OF gb this] obtain b' where
    res: "removeItem k h = checkUnderLoadFactor
       (h1\<lparr>buckets := set_slot (buckets h1) (nat (hash k h)) b', count := count h - 1\<rparr>)" ..
  have "10 * (count h - 1) < 4 * size' h"
    using assms(2,3) underload_iff [of "size' h" "count h - 1"] by simp
  then show ?thesis
    unfolding res checkUnderLoadFactor_eq shrink_size
    using assms(3) g
      console_grows(3) [of "h1\<lparr>buckets := set_slot (buckets h1) (nat (hash k h)) b', count := count h - 1\<rparr>"
        "(size' h + 1) div 2"]
    by simp
qed

section \<open>Lookup\<close>

lemma getItem_frame:
  "size' (snd (getItem k h)) = size' h \<and> count (snd (getItem k h)) = count h \<and>
   console (snd (getItem k h)) = console h \<and>
   flat (buckets (snd (getItem k h))) = flat (buckets h)"
proof -
  obtain b h1 where gb: "getBucket k h = (b, h1)"
    by (cases "getBucket k h")
  from getBucket_props [OF gb] getBucket_flat [OF gb] gb show ?thesis
    by (simp add: getItem_def)
qed

lemma slot_set_slot: "slot (set_slot bs i b) j = (if j = i then Some b else slot bs j)"
  by (auto simp: slot_def set_slot_def nth_append nth_Cons')

lemma getItem_buckets:
  "slot (buckets h) i = Some b \<Longrightarrow> slot (buckets (snd (getItem k h))) i = Some b"
  by (auto simp: getItem_def getBucket_def Let_def slot_set_slot split: option.splits)

lemma getItem_allocated:
  "slot (buckets h) (nat (hash k h)) \<noteq> None \<Longrightarrow> snd (getItem k h) = h"
  by (auto simp: getItem_def getBucket_def Let_def split: option.splits)

lemma getItem_hole:
  "slot (buckets h) (nat (hash k h)) = None \<Longrightarrow>
   snd (getItem k h) = h\<lparr>buckets := set_slot (buckets h) (nat (hash k h)) []\<rparr>"
  by (auto simp: getItem_def getBucket_def Let_def split: option.splits)

section \<open>The table as a map\<close>

lemma ins_simps [simp]: "ins m [] = m" "ins m (e # es) = ins (m(fst e \<mapsto> snd e)) es"
  "ins m (es @ fs) = ins (ins m es) fs"
  by (simp_all add: ins_def)

lemma ins_rev: "ins m es = m ++ map_of (rev es)"
proof (induction es arbitrary: m)
  case Nil
  then show ?case by simp
next
  case (Cons e es)
  obtain k v where e: "e = (k, v)" by (cases e)
  have "ins m (e # es) = m(k \<mapsto> v) ++ map_of (rev es)"
    unfolding e using Cons.IH [of "m(k \<mapsto> v)"] by (simp add: fun_upd_def)
  also have "\<dots> = m ++ map_of (rev (e # es))"
    unfolding e by simp
  finally show ?case .
qed

lemma map_of_rev_distinct: "distinct (map fst es) \<Longrightarrow> map_of (rev es) = map_of es"
proof (induction es)
  case Nil
  then show ?case by simp
next
  case (Cons e es)
  obtain k v where e: "e = (k, v)" by (cases e)
  with Cons.prems have "map_of es k = None"
    by (simp add: map_of_eq_None_iff)
  then have "[k \<mapsto> v] ++ map_of es = (map_of es)(k \<mapsto> v)"
    by (intro ext) (simp add: map_add_def split: option.splits)
  with Cons e show ?case by simp
qed

lemma ins_empty: "distinct (map fst es) \<Longrightarrow> ins Map.empty es = map_of es"
  by (simp add: ins_rev map_of_rev_distinct)

lemma getItem_scan_map_of: "getItem_scan k b = map_of b k"
  by (induction b) auto

lemma in_flat_slot: "e \<in> set (flat bs) \<Longrightarrow> \<exists>j b. slot bs j = Some b \<and> e \<in> set b"
proof -
  assume "e \<in> set (flat bs)"
  then obtain x where x: "x \<in> set bs" "e \<in> set (case x of None \<Rightarrow> [] | Some es \<Rightarrow> es)"
    by (auto simp: flat_def)
  then obtain b where b: "x = Some b" "e \<in> set b" by (cases x) auto
  from x(1) obtain j where "j < length bs" "bs ! j = x" by (auto simp: in_set_conv_nth)
  with b have "slot bs j = Some b" by (simp add: slot_def)
  with b(2) show ?thesis by blast
qed

lemma slot_split:
  assumes "slot bs i = Some b"
  shows "\<exists>A C. flat bs = A @ b @ C \<and> (\<forall>b'. flat (set_slot bs i b') = A @ b' @ C) \<and>
           (\<forall>e \<in> set A \<union> set C. \<exists>j c. j \<noteq> i \<and> slot bs j = Some c \<and> e \<in> set c)"
proof -
  from assms have i: "i < length bs" "bs ! i = Some b"
    by (auto simp: slot_def split: if_splits)
  let ?A = "flat (take i bs)" and ?C = "flat (drop (Suc i) bs)"
  have 1: "flat bs = ?A @ b @ ?C"
    using flat_nth [OF i(1)] i(2) by simp
  have 2: "flat (set_slot bs i b') = ?A @ b' @ ?C" for b'
    using flat_update [OF i(1), of "Some b'"] i(1) by (simp add: set_slot_def)
  have 3: "\<exists>j c. j \<noteq> i \<and> slot bs j = Some c \<and> e \<in> set c" if "e \<in> set ?A \<union> set ?C" for e
  proof -
    from that consider "e \<in> set ?A" | "e \<in> set ?C" by blast
    then show ?thesis
    proof cases
      case 1
      from in_flat_slot [OF this] obtain j c where "slot (take i bs) j = Some c" "e \<in> set c"
        by blast
      then have "j \<noteq> i \<and> slot bs j = Some c \<and> e \<in> set c"
        by (auto simp: slot_def split: if_splits)
      then show ?thesis by blast
    next
      case 2
      from in_flat_slot [OF this] obtain j c where "slot (drop (Suc i) bs) j = Some c" "e \<in> set c"
        by blast
      then have "Suc i + j \<noteq> i \<and> slot bs (Suc i + j) = Some c \<and> e \<in> set c"
        by (auto simp: slot_def split: if_splits)
      then show ?thesis by blast
    qed
  qed
  from 1 2 3 show ?thesis by blast
qed

lemma hash_simps [simp]:
  "hash k (h\<lparr>buckets := bs\<rparr>) = hash k h"
  "hash k (h\<lparr>count := c\<rparr>) = hash k h"
  "hash k (h\<lparr>console := l\<rparr>) = hash k h"
  by (simp_all add: hash_def)

lemma placed_bucket_update:
  assumes p: "placed h" and s: "slot (buckets h) i = Some b" and i: "i = nat (hash k h)"
    and d: "distinct (map fst b')" and sub: "fst ` set b' \<subseteq> insert k (fst ` set b)"
  shows "placed (h\<lparr>buckets := set_slot (buckets h) i b'\<rparr>)"
proof -
  from slot_split [OF s] obtain A C where
    fl: "flat (buckets h) = A @ b @ C" and fl': "flat (set_slot (buckets h) i b') = A @ b' @ C"
    and far: "\<forall>e \<in> set A \<union> set C. \<exists>j c. j \<noteq> i \<and> slot (buckets h) j = Some c \<and> e \<in> set c"
    by blast
  have pl: "\<And>j c e. slot (buckets h) j = Some c \<Longrightarrow> e \<in> set c \<Longrightarrow> nat (hash (fst e) h) = j"
    using p by (auto simp: placed_def)
  have dist: "distinct (map fst (A @ b @ C))"
    using p fl by (simp add: placed_def)
  have nk: "fst e \<noteq> k" if "e \<in> set A \<union> set C" for e
  proof -
    from far that obtain j c where "j \<noteq> i" "slot (buckets h) j = Some c" "e \<in> set c" by blast
    with pl [of j c e] i show ?thesis by auto
  qed
  have "fst ` set b' \<inter> fst ` (set A \<union> set C) = {}"
  proof -
    have "fst ` set b \<inter> fst ` (set A \<union> set C) = {}"
      using dist by auto
    moreover have "k \<notin> fst ` (set A \<union> set C)" using nk by auto
    ultimately show ?thesis using sub by blast
  qed
  then have "distinct (map fst (A @ b' @ C))"
    using dist d by auto
  moreover have "nat (hash (fst e) h) = j" if "slot (set_slot (buckets h) i b') j = Some c" "e \<in> set c"
    for j c e
  proof (cases "j = i")
    case True
    with that have "e \<in> set b'" by (simp add: slot_set_slot)
    with sub have "fst e = k \<or> fst e \<in> fst ` set b" by auto
    then show ?thesis
      using pl [OF s] i True by auto
  next
    case False
    with that pl show ?thesis by (simp add: slot_set_slot)
  qed
  ultimately show ?thesis
    using fl' by (auto simp: placed_def)
qed

lemma map_of_bucket_update:
  assumes p: "placed h" and s: "slot (buckets h) i = Some b" and i: "i = nat (hash k h)"
    and m: "map_of b' = (map_of b)(k \<mapsto> v)"
  shows "map_of (flat (set_slot (buckets h) i b')) = (map_of (flat (buckets h)))(k \<mapsto> v)"
proof -
  from slot_split [OF s] obtain A C where
    fl: "flat (buckets h) = A @ b @ C" and fl': "flat (set_slot (buckets h) i b') = A @ b' @ C"
    and far: "\<forall>e \<in> set A \<union> set C. \<exists>j c. j \<noteq> i \<and> slot (buckets h) j = Some c \<and> e \<in> set c"
    by blast
  have pl: "\<And>j c e. slot (buckets h) j = Some c \<Longrightarrow> e \<in> set c \<Longrightarrow> nat (hash (fst e) h) = j"
    using p by (auto simp: placed_def)
  have nk: "fst e \<noteq> k" if "e \<in> set A \<union> set C" for e
  proof -
    from far that obtain j c where "j \<noteq> i" "slot (buckets h) j = Some c" "e \<in> set c" by blast
    with pl [of j c e] i show ?thesis by auto
  qed
  then have "map_of A k = None"
    by (auto simp: map_of_eq_None_iff)
  then show ?thesis
    unfolding fl fl' using m
    by (intro ext) (simp add: map_add_def split: option.splits)
qed

lemma placed_lookup:
  assumes p: "placed h" and s: "slot (buckets h) (nat (hash k h)) = Some b"
  shows "map_of (flat (buckets h)) k = map_of b k"
proof -
  from slot_split [OF s] obtain A C where
    fl: "flat (buckets h) = A @ b @ C"
    and far: "\<forall>e \<in> set A \<union> set C. \<exists>j c. j \<noteq> nat (hash k h) \<and> slot (buckets h) j = Some c \<and> e \<in> set c"
    by blast
  have pl: "\<And>j c e. slot (buckets h) j = Some c \<Longrightarrow> e \<in> set c \<Longrightarrow> nat (hash (fst e) h) = j"
    using p by (auto simp: placed_def)
  have nk: "fst e \<noteq> k" if "e \<in> set A \<union> set C" for e
  proof -
    from far that obtain j c where "j \<noteq> nat (hash k h)" "slot (buckets h) j = Some c" "e \<in> set c"
      by blast
    with pl [of j c e] show ?thesis by auto
  qed
  then have "map_of A k = None" "map_of C k = None"
    by (auto simp: map_of_eq_None_iff)
  then show ?thesis
    unfolding fl by (simp add: map_add_def split: option.splits)
qed

lemma setItem_scan_Some:
  "setItem_scan k v b = Some b' \<Longrightarrow>
     map fst b' = map fst b \<and> k \<in> fst ` set b \<and>
     (distinct (map fst b) \<longrightarrow> map_of b' = (map_of b)(k \<mapsto> v))"
proof (induction b arbitrary: b')
  case Nil
  then show ?case by simp
next
  case (Cons e es)
  obtain k' v' where e: "e = (k', v')" by (cases e)
  show ?case
  proof (cases "k' = k")
    case True
    with Cons.prems e show ?thesis by auto
  next
    case False
    with Cons.prems e obtain es' where es': "setItem_scan k v es = Some es'" "b' = (k', v') # es'"
      by auto
    from Cons.IH [OF es'(1)] es'(2) e False show ?thesis
      by (auto simp: fun_upd_twist)
  qed
qed

lemma removeItem_scan_Some:
  "removeItem_scan k b = Some b' \<Longrightarrow>
     set b' \<subseteq> set b \<and> (distinct (map fst b) \<longrightarrow> distinct (map fst b') \<and> k \<notin> fst ` set b')"
proof (induction b arbitrary: b')
  case Nil
  then show ?case by simp
next
  case (Cons e es)
  obtain k' v' where e: "e = (k', v')" by (cases e)
  show ?case
  proof (cases "k' = k")
    case True
    with Cons.prems e show ?thesis by (auto simp: image_iff)
  next
    case False
    with Cons.prems e obtain es' where es': "removeItem_scan k es = Some es'" "b' = (k', v') # es'"
      by auto
    from Cons.IH [OF es'(1)] es'(2) e False show ?thesis
      by (auto simp: image_iff)
  qed
qed


lemma placed_simps [simp]:
  "placed (h\<lparr>count := c\<rparr>) = placed h"
  "placed (h\<lparr>console := l\<rparr>) = placed h"
  by (simp_all add: placed_def)

lemma placed_bucket_distinct:
  "placed h \<Longrightarrow> slot (buckets h) i = Some b \<Longrightarrow> distinct (map fst b)"
  using slot_split [of "buckets h" i b] by (auto simp: placed_def)

lemma placed_getBucket:
  assumes "placed h" and "getBucket k h = (b, h1)"
  shows "placed h1"
proof (cases "slot (buckets h) (nat (hash k h))")
  case None
  then have h1: "h1 = h\<lparr>buckets := set_slot (buckets h) (nat (hash k h)) []\<rparr>"
    using assms(2) by (simp add: getBucket_def)
  have "nat (hash (fst e) h) = j"
    if "slot (set_slot (buckets h) (nat (hash k h)) []) j = Some c" "e \<in> set c" for j c e
  proof (cases "j = nat (hash k h)")
    case True
    with that show ?thesis by (simp add: slot_set_slot)
  next
    case False
    with that have "slot (buckets h) j = Some c" by (simp add: slot_set_slot)
    with assms(1) that(2) show ?thesis by (auto simp: placed_def)
  qed
  then show ?thesis
    using assms(1) None unfolding h1 by (auto simp: placed_def flat_fill_hole)
next
  case (Some c)
  then have "h1 = h" using assms(2) by (simp add: getBucket_def)
  with assms(1) show ?thesis by simp
qed

lemma placed_fresh:
  "placed (h\<lparr>size' := n, count := 0, buckets := replicate (nat n) (Some []), console := l\<rparr>)"
  by (auto simp: placed_def slot_def)

lemma setItem_model:
  "placed h \<longrightarrow> placed (snd (setItem k v h)) \<and>
     (fst (setItem k v h) = Inr () \<longrightarrow>
        map_of (flat (buckets (snd (setItem k v h)))) = (map_of (flat (buckets h)))(k \<mapsto> v))"
  "placed h \<longrightarrow> placed (snd (checkLoadFactor h)) \<and>
     (fst (checkLoadFactor h) = Inr () \<longrightarrow>
        map_of (flat (buckets (snd (checkLoadFactor h)))) = map_of (flat (buckets h)))"
  "distinct (map fst (flat (buckets h))) \<longrightarrow> placed (snd (resize n h)) \<and>
     (fst (resize n h) = Inr () \<longrightarrow>
        map_of (flat (buckets (snd (resize n h)))) = map_of (flat (buckets h)))"
  "placed h \<longrightarrow> placed (snd (resize_buckets bs h)) \<and>
     (fst (resize_buckets bs h) = Inr () \<longrightarrow>
        map_of (flat (buckets (snd (resize_buckets bs h)))) =
          ins (map_of (flat (buckets h))) (flat bs))"
  "placed h \<longrightarrow> placed (snd (resize_entries es h)) \<and>
     (fst (resize_entries es h) = Inr () \<longrightarrow>
        map_of (flat (buckets (snd (resize_entries es h)))) = ins (map_of (flat (buckets h))) es)"
proof (induct k v h and h and n h and bs h and es h
    rule: setItem_checkLoadFactor_resize_resize_buckets_resize_entries.induct)
  case (1 keyName keyValue h)
  obtain bucket h1 where gb: "getBucket keyName h = (bucket, h1)"
    by (cases "getBucket keyName h")
  note g = getBucket_props [OF gb]
  show ?case
  proof (intro impI)
    assume ph: "placed h"
    then have p1: "placed h1" using gb by (rule placed_getBucket)
    have s1: "slot (buckets h1) (nat (hash keyName h1)) = Some bucket"
      using g by simp
    have db: "distinct (map fst bucket)"
      using p1 s1 by (rule placed_bucket_distinct)
    have f1: "flat (buckets h1) = flat (buckets h)" using gb by (rule getBucket_flat)
    show "placed (snd (setItem keyName keyValue h)) \<and>
      (fst (setItem keyName keyValue h) = Inr () \<longrightarrow>
        map_of (flat (buckets (snd (setItem keyName keyValue h)))) =
        (map_of (flat (buckets h)))(keyName \<mapsto> keyValue))"
    proof (cases "setItem_scan keyName keyValue bucket")
      case None
      let ?b' = "bucket @ [(keyName, keyValue)]"
      let ?h2 = "h1\<lparr>buckets := set_slot (buckets h1) (nat (hash keyName h1)) ?b',
                    count := count h1 + 1\<rparr>"
      have res: "setItem keyName keyValue h = checkLoadFactor ?h2"
        using None gb by (simp add: setItem.simps)
      have new: "keyName \<notin> fst ` set bucket"
        using None by (simp add: setItem_scan_None)
      have p2: "placed ?h2"
        using placed_bucket_update [OF p1 s1 refl, of ?b'] db new by simp
      have "map_of bucket keyName = None"
        using new by (simp add: map_of_eq_None_iff)
      then have "map_of ?b' = (map_of bucket)(keyName \<mapsto> keyValue)"
        by (intro ext) (auto simp: map_add_def split: option.splits)
      from map_of_bucket_update [OF p1 s1 refl this]
      have m2: "map_of (flat (buckets ?h2)) = (map_of (flat (buckets h)))(keyName \<mapsto> keyValue)"
        using f1 by simp
      from 1 [OF gb [symmetric] refl refl None] p2
      have "placed (snd (checkLoadFactor ?h2)) \<and>
        (fst (checkLoadFactor ?h2) = Inr () \<longrightarrow>
          map_of (flat (buckets (snd (checkLoadFactor ?h2)))) = map_of (flat (buckets ?h2)))"
        by blast
      then show ?thesis unfolding res m2 .
    next
      case (Some bucket')
      let ?y = "h1\<lparr>buckets := set_slot (buckets h1) (nat (hash keyName h1)) bucket'\<rparr>"
      have res: "setItem keyName keyValue h = (Inr (), ?y)"
        using Some gb by (simp add: setItem.simps)
      note sc = setItem_scan_Some [OF Some]
      from sc have "fst ` set bucket' = fst ` set bucket"
        by (metis list.set_map)
      moreover have "distinct (map fst bucket')" using sc db by simp
      ultimately have py: "placed ?y"
        by (intro placed_bucket_update [OF p1 s1 refl]) auto
      from sc db have "map_of bucket' = (map_of bucket)(keyName \<mapsto> keyValue)" by blast
      from map_of_bucket_update [OF p1 s1 refl this] f1 py
      show ?thesis unfolding res by simp
    qed
  qed
next
  case (2 h)
  show ?case
  proof (cases "loadFactor < rat_of_int (count h) / rat_of_int (size' h)")
    case True
    then have res: "checkLoadFactor h = resize (size' h * 2) h"
      by (simp add: checkLoadFactor.simps)
    show ?thesis
      using 2 [OF refl True] unfolding res by (simp add: placed_def)
  next
    case False
    then show ?thesis by (simp add: checkLoadFactor.simps)
  qed
next
  case (3 newSize h)
  define y where "y = h\<lparr>size' := newSize, count := 0\<rparr>"
  define xab where "xab = y\<lparr>buckets := replicate (nat newSize) (Some [])\<rparr>"
  define f where "f = xab\<lparr>console := console xab @ [newSize]\<rparr>"
  have nw: "(replicate (nat newSize) (Some []), y) = new newSize (h\<lparr>size' := newSize\<rparr>)"
    by (simp add: new_def y_def)
  have res: "resize newSize h = resize_buckets (buckets h) f"
    using nw [symmetric] by (simp add: resize.simps f_def xab_def Let_def)
  have pf: "placed f" "flat (buckets f) = []"
    using placed_fresh [where h = h and n = newSize and l = "console h @ [newSize]"]
    by (simp_all add: f_def xab_def y_def)
  have "placed f \<longrightarrow> placed (snd (resize_buckets (buckets h) f)) \<and>
     (fst (resize_buckets (buckets h) f) = Inr () \<longrightarrow>
        map_of (flat (buckets (snd (resize_buckets (buckets h) f)))) =
          ins (map_of (flat (buckets f))) (flat (buckets h)))"
    by (rule 3 [OF refl refl refl nw xab_def f_def])
  with pf show ?case unfolding res by (simp add: ins_empty)
next
  case (4 h)
  then show ?case by simp
next
  case (5 b bs h)
  show ?case
  proof (cases b)
    case None
    then show ?thesis by simp
  next
    case (Some x2)
    obtain r h' where re: "resize_entries x2 h = (r, h')"
      by (cases "resize_entries x2 h")
    have s1: "placed h \<longrightarrow> placed h' \<and>
        (r = Inr () \<longrightarrow> map_of (flat (buckets h')) = ins (map_of (flat (buckets h))) x2)"
      using 5(1) [OF Some] re by simp
    show ?thesis
    proof (cases r)
      case (Inl e)
      then show ?thesis using Some re s1 by simp
    next
      case (Inr u)
      have "placed h' \<longrightarrow> placed (snd (resize_buckets bs h')) \<and>
        (fst (resize_buckets bs h') = Inr () \<longrightarrow>
          map_of (flat (buckets (snd (resize_buckets bs h')))) =
            ins (map_of (flat (buckets h'))) (flat bs))"
        using 5(2) [OF Some re [symmetric] Inr] .
      with s1 show ?thesis using Some re Inr by simp
    qed
  qed
next
  case (6 h)
  then show ?case by simp
next
  case (7 key val es h)
  obtain r h' where re: "setItem key val h = (r, h')"
    by (cases "setItem key val h")
  have s1: "placed h \<longrightarrow> placed h' \<and>
      (r = Inr () \<longrightarrow> map_of (flat (buckets h')) = (map_of (flat (buckets h)))(key \<mapsto> val))"
    using 7(1) re by (simp add: fun_upd_def)
  show ?case
  proof (cases r)
    case (Inl e)
    then show ?thesis using re s1 by simp
  next
    case (Inr u)
    have "placed h' \<longrightarrow> placed (snd (resize_entries es h')) \<and>
      (fst (resize_entries es h') = Inr () \<longrightarrow>
        map_of (flat (buckets (snd (resize_entries es h')))) = ins (map_of (flat (buckets h'))) es)"
      using 7(2) [OF re [symmetric] Inr] .
    with s1 show ?thesis using re Inr by (simp add: fun_upd_def)
  qed
qed


lemma placed_removeItem: "placed h \<Longrightarrow> placed (snd (removeItem k h))"
proof -
  assume ph: "placed h"
  obtain b h1 where gb: "getBucket k h = (b, h1)"
    by (cases "getBucket k h")
  note g = getBucket_props [OF gb]
  have p1: "placed h1" using ph gb by (rule placed_getBucket)
  have s1: "slot (buckets h1) (nat (hash k h1)) = Some b" using g by simp
  show ?thesis
  proof (cases "removeItem_scan k b")
    case None
    then show ?thesis using gb p1 by (simp add: removeItem_def)
  next
    case (Some b')
    let ?h2 = "h1\<lparr>buckets := set_slot (buckets h1) (nat (hash k h1)) b', count := count h1 - 1\<rparr>"
    have res: "removeItem k h = checkUnderLoadFactor ?h2"
      using Some gb by (simp add: removeItem_def)
    from removeItem_scan_Some [OF Some] placed_bucket_distinct [OF p1 s1]
    have "distinct (map fst b')" "fst ` set b' \<subseteq> insert k (fst ` set b)" by auto
    then have p2: "placed ?h2"
      using placed_bucket_update [OF p1 s1 refl, of b'] by simp
    then have "distinct (map fst (flat (buckets ?h2)))" by (simp add: placed_def)
    with setItem_model(3) [of ?h2 "(size' ?h2 + 1) div 2"] p2 show ?thesis
      unfolding res checkUnderLoadFactor_eq by simp
  qed
qed

lemma placed_constructor: "constructor sz = Inr h \<Longrightarrow> placed h"
  by (cases sz) (auto simp: constructor_eq placed_def slot_def split: if_splits)

lemma placed_clear: "placed (clear h)"
  by (auto simp: clear_def new_def placed_def slot_def)

lemma reachable_placed: "reachable h \<Longrightarrow> placed h"
proof (induction rule: reachable.induct)
  case (constructed sz h)
  then show ?case by (rule placed_constructor)
next
  case (after_setItem h k v)
  then show ?case using setItem_model(1) by blast
next
  case (after_getItem h k)
  then show ?case
    using placed_getBucket [of h k] by (cases "getBucket k h") (simp add: getItem_def)
next
  case (after_removeItem h k)
  from after_removeItem.IH show ?case by (rule placed_removeItem)
next
  case (after_clear h)
  show ?case by (rule placed_clear)
next
  case (after_keyExists h k)
  then show ?case
    using placed_getBucket [of h k]
    by (cases "getBucket k h") (simp add: keyExists_def getItem_def)
qed

lemma getItem_placed: "placed h \<Longrightarrow> fst (getItem k h) = map_of (flat (buckets h)) k"
proof -
  assume ph: "placed h"
  obtain b h1 where gb: "getBucket k h = (b, h1)"
    by (cases "getBucket k h")
  note g = getBucket_props [OF gb]
  have p1: "placed h1" using ph gb by (rule placed_getBucket)
  have s1: "slot (buckets h1) (nat (hash k h1)) = Some b" using g by simp
  from placed_lookup [OF p1 s1] getBucket_flat [OF gb] gb show ?thesis
    by (simp add: getItem_def getItem_scan_map_of)
qed

lemma getItem_after_setItem:
  assumes "reachable h" and "fst (setItem k v h) = Inr ()"
  shows "fst (getItem k' (snd (setItem k v h))) = (if k' = k then Some v else fst (getItem k' h))"
proof -
  have ph: "placed h" using assms(1) by (rule reachable_placed)
  with setItem_model(1) [of h k v] assms(2)
  have "placed (snd (setItem k v h))"
    and "map_of (flat (buckets (snd (setItem k v h)))) = (map_of (flat (buckets h)))(k \<mapsto> v)"
    by blast+
  then show ?thesis
    using getItem_placed [of "snd (setItem k v h)" k'] getItem_placed [OF ph, of k'] by simp
qed

section \<open>Tables without holes\<close>

lemma index_in_range: "0 < size' h \<Longrightarrow> int (nat (hash k h)) < size' h"
  by (simp add: hash_true_modulo)

lemma dense_getBucket:
  assumes "0 < size' h" "None \<notin> set (buckets h)" "size' h \<le> int (length (buckets h))"
    and "getBucket k h = (b, h1)"
  shows "h1 = h \<and> nat (hash k h) < length (buckets h)"
proof -
  have i: "nat (hash k h) < length (buckets h)"
    using index_in_range [OF assms(1), of k] assms(3) by linarith
  with assms(2) have "slot (buckets h) (nat (hash k h)) \<noteq> None"
    by (auto simp: slot_def in_set_conv_nth)
  with assms(4) i show ?thesis
    by (auto simp: getBucket_def)
qed

lemma set_slot_dense:
  "i < length bs \<Longrightarrow> None \<notin> set bs \<Longrightarrow>
     None \<notin> set (set_slot bs i b) \<and> length (set_slot bs i b) = length bs"
  by (auto simp: set_slot_def dest: set_update_subset_insert [THEN subsetD])

lemma dense_preserved:
  "dense h \<longrightarrow> dense (snd (setItem k v h)) \<and> fst (setItem k v h) = Inr ()"
  "counted h \<and> 0 < size' h \<and> None \<notin> set (buckets h) \<and> size' h \<le> int (length (buckets h))
     \<longrightarrow> dense (snd (checkLoadFactor h)) \<and> fst (checkLoadFactor h) = Inr ()"
  "0 < n \<and> None \<notin> set (buckets h)
     \<longrightarrow> dense (snd (resize n h)) \<and> fst (resize n h) = Inr ()"
  "dense h \<and> None \<notin> set bs
     \<longrightarrow> dense (snd (resize_buckets bs h)) \<and> fst (resize_buckets bs h) = Inr ()"
  "dense h \<longrightarrow> dense (snd (resize_entries es h)) \<and> fst (resize_entries es h) = Inr ()"
proof (induct k v h and h and n h and bs h and es h
    rule: setItem_checkLoadFactor_resize_resize_buckets_resize_entries.induct)
  case (1 keyName keyValue h)
  obtain bucket h1 where gb: "getBucket keyName h = (bucket, h1)"
    by (cases "getBucket keyName h")
  note g = getBucket_props [OF gb]
  show ?case
  proof (intro impI)
    assume dh: "dense h"
    then have kh: "kept h" and ds: "0 < size' h" "None \<notin> set (buckets h)"
      "size' h \<le> int (length (buckets h))"
      by (simp_all add: dense_def)
    from dense_getBucket [OF ds gb] have h1: "h1 = h" and i: "nat (hash keyName h) < length (buckets h)"
      by simp_all
    show "dense (snd (setItem keyName keyValue h)) \<and> fst (setItem keyName keyValue h) = Inr ()"
    proof (cases "setItem_scan keyName keyValue bucket")
      case None
      let ?h2 = "h1\<lparr>buckets := set_slot (buckets h1) (nat (hash keyName h1))
                    (bucket @ [(keyName, keyValue)]), count := count h1 + 1\<rparr>"
      have res: "setItem keyName keyValue h = checkLoadFactor ?h2"
        using None gb by (simp add: setItem.simps)
      have "stored ?h2 = stored h + 1"
        using stored_bucket_replaced [OF gb, of "bucket @ [(keyName, keyValue)]"] by simp
      then have "counted ?h2"
        using kh g by (simp add: kept_def counted_def)
      moreover have "None \<notin> set (buckets ?h2) \<and> length (buckets ?h2) = length (buckets h)"
        using set_slot_dense [OF i ds(2)] h1 by simp
      ultimately show ?thesis
        using 1 [OF gb [symmetric] refl refl None] ds g unfolding res by simp
    next
      case (Some bucket')
      let ?y = "h1\<lparr>buckets := set_slot (buckets h1) (nat (hash keyName h1)) bucket'\<rparr>"
      have res: "setItem keyName keyValue h = (Inr (), ?y)"
        using Some gb by (simp add: setItem.simps)
      have "kept (snd (setItem keyName keyValue h))"
        using kept_preserved(1) kh by blast
      moreover have "None \<notin> set (buckets ?y) \<and> length (buckets ?y) = length (buckets h)"
        using set_slot_dense [OF i ds(2)] h1 by simp
      ultimately show ?thesis
        using ds h1 unfolding res by (simp add: dense_def)
    qed
  qed
next
  case (2 h)
  show ?case
  proof (cases "loadFactor < rat_of_int (count h) / rat_of_int (size' h)")
    case True
    then have res: "checkLoadFactor h = resize (size' h * 2) h"
      by (simp add: checkLoadFactor.simps)
    show ?thesis
      using 2 [OF refl True] unfolding res by simp
  next
    case False
    then have "checkLoadFactor h = (Inr (), h)" by (simp add: checkLoadFactor.simps)
    moreover have "0 < size' h \<Longrightarrow> 10 * count h \<le> 7 * size' h"
      using False by (auto simp: loadFactor_less_iff)
    ultimately show ?thesis by (auto simp: dense_def kept_def)
  qed
next
  case (3 newSize h)
  define y where "y = h\<lparr>size' := newSize, count := 0\<rparr>"
  define xab where "xab = y\<lparr>buckets := replicate (nat newSize) (Some [])\<rparr>"
  define f where "f = xab\<lparr>console := console xab @ [newSize]\<rparr>"
  have nw: "(replicate (nat newSize) (Some []), y) = new newSize (h\<lparr>size' := newSize\<rparr>)"
    by (simp add: new_def y_def)
  have res: "resize newSize h = resize_buckets (buckets h) f"
    using nw [symmetric] by (simp add: resize.simps f_def xab_def Let_def)
  have "dense f \<and> None \<notin> set (buckets h) \<longrightarrow>
      dense (snd (resize_buckets (buckets h) f)) \<and> fst (resize_buckets (buckets h) f) = Inr ()"
    by (rule 3 [OF refl refl refl nw xab_def f_def])
  moreover have "0 < newSize \<Longrightarrow> dense f"
    by (simp add: f_def xab_def y_def dense_def kept_def counted_def)
  ultimately show ?case unfolding res by blast
next
  case (4 h)
  then show ?case by simp
next
  case (5 b bs h)
  show ?case
  proof (cases b)
    case None
    then show ?thesis by simp
  next
    case (Some x2)
    obtain r h' where re: "resize_entries x2 h = (r, h')"
      by (cases "resize_entries x2 h")
    have s1: "dense h \<longrightarrow> dense h' \<and> r = Inr ()"
      using 5(1) [OF Some] re by simp
    show ?thesis
    proof (cases r)
      case (Inl e)
      then show ?thesis using Some re s1 by simp
    next
      case (Inr u)
      have "dense h' \<and> None \<notin> set bs \<longrightarrow>
          dense (snd (resize_buckets bs h')) \<and> fst (resize_buckets bs h') = Inr ()"
        using 5(2) [OF Some re [symmetric] Inr] .
      with s1 show ?thesis using Some re Inr by simp
    qed
  qed
next
  case (6 h)
  then show ?case by simp
next
  case (7 key val es h)
  obtain r h' where re: "setItem key val h = (r, h')"
    by (cases "setItem key val h")
  have s1: "dense h \<longrightarrow> dense h' \<and> r = Inr ()"
    using 7(1) re by simp
  show ?case
  proof (cases r)
    case (Inl e)
    then show ?thesis using re s1 by simp
  next
    case (Inr u)
    have "dense h' \<longrightarrow> dense (snd (resize_entries es h')) \<and> fst (resize_entries es h') = Inr ()"
      using 7(2) [OF re [symmetric] Inr] .
    with s1 show ?thesis using re Inr by simp
  qed
qed

lemma dense_removeItem:
  assumes "dense h"
  shows "dense (snd (removeItem k h)) \<and> fst (removeItem k h) = Inr ()"
proof -
  from assms have kh: "kept h" and ds: "0 < size' h" "None \<notin> set (buckets h)"
    "size' h \<le> int (length (buckets h))"
    by (simp_all add: dense_def)
  obtain b h1 where gb: "getBucket k h = (b, h1)"
    by (cases "getBucket k h")
  note g = getBucket_props [OF gb]
  from dense_getBucket [OF ds gb] have h1: "h1 = h" and i: "nat (hash k h) < length (buckets h)"
    by simp_all
  show ?thesis
  proof (cases "removeItem_scan k b")
    case None
    then show ?thesis using gb h1 assms by (simp add: removeItem_def)
  next
    case (Some b')
    let ?h2 = "h1\<lparr>buckets := set_slot (buckets h1) (nat (hash k h1)) b', count := count h1 - 1\<rparr>"
    have res: "removeItem k h = checkUnderLoadFactor ?h2"
      using Some gb by (simp add: removeItem_def)
    have k2: "kept (snd (removeItem k h))" using kh by (rule kept_removeItem)
    have d2: "None \<notin> set (buckets ?h2) \<and> length (buckets ?h2) = length (buckets h)"
      using set_slot_dense [OF i ds(2)] h1 by simp
    show ?thesis
    proof (cases "10 * count ?h2 < 4 * size' ?h2 \<and> 10 < size' ?h2")
      case True
      then have "0 < (size' ?h2 + 1) div 2" by presburger
      with dense_preserved(3) [of "(size' ?h2 + 1) div 2" ?h2] d2 True show ?thesis
        unfolding res checkUnderLoadFactor_eq by simp
    next
      case False
      then have "checkUnderLoadFactor ?h2 = (Inr (), ?h2)"
        unfolding checkUnderLoadFactor_eq by auto
      with k2 d2 ds h1 show ?thesis
        unfolding res by (simp add: dense_def)
    qed
  qed
qed

lemma dense_getItem: "dense h \<Longrightarrow> snd (getItem k h) = h"
proof -
  assume "dense h"
  then have ds: "0 < size' h" "None \<notin> set (buckets h)" "size' h \<le> int (length (buckets h))"
    by (simp_all add: dense_def)
  obtain b h1 where gb: "getBucket k h = (b, h1)"
    by (cases "getBucket k h")
  from dense_getBucket [OF ds gb] gb show ?thesis by (simp add: getItem_def)
qed

lemma dense_constructor:
  "constructor sz = Inr h \<Longrightarrow> 0 < size' h \<Longrightarrow> dense h \<and> int (length (buckets h)) = size' h"
  using kept_constructor [of sz h]
  by (cases sz) (auto simp: dense_def constructor_eq split: if_splits)

lemma dense_clear: "dense h \<Longrightarrow> size' h \<le> 4 \<Longrightarrow> dense (clear h)"
  by (auto simp: dense_def clear_def new_def initialSize_def kept_def counted_def)

lemma round_trip_without_holes:
  "reachable h \<Longrightarrow> dense h \<Longrightarrow> fst (getItem k (snd (setItem k v h))) = Some v"
  using getItem_after_setItem [of h k v k] dense_preserved(1) [of h k v] by simp

section \<open>Rebuilds\<close>

lemma setItem_stores_one: "counted h \<Longrightarrow> stored (snd (setItem k v h)) \<le> stored h + 1"
  using partial_props(1) [OF rebuild_calls_terminate [THEN spec], of h k v]
  by (simp add: step_def)

lemma phase_setItem:
  assumes ph: "phase C n g" and n: "0 < n" and room: "10 * (count g + 1) \<le> 14 * n"
  shows "phase C n (snd (setItem k v g)) \<and> count (snd (setItem k v g)) \<le> count g + 1"
proof -
  let ?y = "snd (setItem k v g)"
  have kg: "kept g" using ph by (simp add: phase_def)
  then have ky: "kept ?y" using kept_preserved(1) by blast
  have cnt: "count ?y \<le> count g + 1"
    using kg ky setItem_stores_one [of g k v] by (simp add: kept_def counted_def)
  obtain b h1 where gb: "getBucket k g = (b, h1)"
    by (cases "getBucket k g")
  note g = getBucket_props [OF gb]
  have "size' ?y = n \<and> console ?y = C @ [n] \<or> size' ?y = n * 2 \<and> console ?y = C @ [n, n * 2]"
  proof (cases "size' g = n \<and> console g = C @ [n]")
    case False
    with ph have big: "size' g = n * 2" "console g = C @ [n, n * 2]"
      by (auto simp: phase_def)
    then have "0 < size' g" "10 * (count g + 1) \<le> 7 * size' g"
      using n room by simp_all
    from quiet_setItem [OF this, of k v] big show ?thesis by simp
  next
    case True
    show ?thesis
    proof (cases "k \<in> fst ` set b")
      case old: True
      from setItem_old_key [OF gb old, of v] obtain b' where
        "setItem k v g = (Inr (), h1\<lparr>buckets := set_slot (buckets h1) (nat (hash k g)) b'\<rparr>)" ..
      with True g show ?thesis by simp
    next
      case new: False
      show ?thesis
      proof (cases "10 * (count g + 1) \<le> 7 * size' g")
        case quiet: True
        from quiet_setItem [OF _ quiet, of k v] True n show ?thesis by simp
      next
        case over: False
        with True n have "loadFactor < rat_of_int (count g + 1) / rat_of_int (size' g)"
          by (simp only: loadFactor_less_iff) simp
        from grow_once [OF kg gb new this, of v] True show ?thesis by simp
      qed
    qed
  qed
  with ky cnt show ?thesis by (simp add: phase_def)
qed

lemma phase_entries:
  assumes "phase C n g" and "0 < n" and "10 * (count g + int (length es)) \<le> 14 * n"
  shows "phase C n (snd (resize_entries es g)) \<and>
         count (snd (resize_entries es g)) \<le> count g + int (length es)"
  using assms
proof (induction es arbitrary: g)
  case Nil
  then show ?case by simp
next
  case (Cons e es)
  obtain k v where e: "e = (k, v)" by (cases e)
  obtain r g' where re: "setItem k v g = (r, g')" by (cases "setItem k v g")
  have q: "phase C n g' \<and> count g' \<le> count g + 1"
    using phase_setItem [OF Cons.prems(1,2), of k v] Cons.prems(3) re by simp
  show ?case
  proof (cases r)
    case (Inl err)
    with q re e show ?thesis by simp
  next
    case (Inr u)
    have "10 * (count g' + int (length es)) \<le> 14 * n"
      using q Cons.prems(3) by simp
    from Cons.IH [OF _ Cons.prems(2) this] q re e Inr show ?thesis by simp
  qed
qed

lemma phase_buckets:
  assumes "phase C n g" and "0 < n" and "10 * (count g + int (length (flat bs))) \<le> 14 * n"
  shows "phase C n (snd (resize_buckets bs g)) \<and>
         count (snd (resize_buckets bs g)) \<le> count g + int (length (flat bs))"
  using assms
proof (induction bs arbitrary: g)
  case Nil
  then show ?case by simp
next
  case (Cons b bs)
  show ?case
  proof (cases b)
    case None
    with Cons.prems show ?thesis by simp
  next
    case (Some es)
    obtain r g' where re: "resize_entries es g = (r, g')" by (cases "resize_entries es g")
    have fl: "length (flat (b # bs)) = length es + length (flat bs)"
      using Some by simp
    have q: "phase C n g' \<and> count g' \<le> count g + int (length es)"
      using phase_entries [OF Cons.prems(1,2), of es] Cons.prems(3) re fl by simp
    show ?thesis
    proof (cases r)
      case (Inl err)
      with q re Some fl show ?thesis by simp
    next
      case (Inr u)
      have "10 * (count g' + int (length (flat bs))) \<le> 14 * n"
        using q Cons.prems(3) fl by simp
      from Cons.IH [OF _ Cons.prems(2) this] q re Some Inr fl show ?thesis by simp
    qed
  qed
qed

lemma resize_phase:
  assumes "0 < n" and "10 * int (stored h) \<le> 14 * n"
  shows "phase (console h) n (snd (resize n h))"
proof -
  let ?f = "h\<lparr>size' := n, count := 0, buckets := replicate (nat n) (Some []),
              console := console h @ [n]\<rparr>"
  have "phase (console h) n ?f"
    using assms(1) by (simp add: phase_def kept_def counted_def)
  from phase_buckets [OF this assms(1), of "buckets h"] assms(2) show ?thesis
    unfolding resize_unfold by (simp add: stored_def)
qed

lemma stored_card:
  "placed h \<Longrightarrow> stored h = card (dom (map_of (flat (buckets h))))"
  by (simp add: placed_def stored_def dom_map_of_conv_image_fst distinct_card [symmetric]
      del: set_map) (metis distinct_card length_map list.set_map)

lemma bucket_count_preserved:
  "dense h \<and> int (length (buckets h)) = size' h \<longrightarrow>
     int (length (buckets (snd (setItem k v h)))) = size' (snd (setItem k v h))"
  "counted h \<and> 0 < size' h \<and> None \<notin> set (buckets h) \<and> int (length (buckets h)) = size' h
     \<longrightarrow> int (length (buckets (snd (checkLoadFactor h)))) = size' (snd (checkLoadFactor h))"
  "0 < n \<and> None \<notin> set (buckets h)
     \<longrightarrow> int (length (buckets (snd (resize n h)))) = size' (snd (resize n h))"
  "dense h \<and> None \<notin> set bs \<and> int (length (buckets h)) = size' h
     \<longrightarrow> int (length (buckets (snd (resize_buckets bs h)))) = size' (snd (resize_buckets bs h))"
  "dense h \<and> int (length (buckets h)) = size' h
     \<longrightarrow> int (length (buckets (snd (resize_entries es h)))) = size' (snd (resize_entries es h))"
proof (induct k v h and h and n h and bs h and es h
    rule: setItem_checkLoadFactor_resize_resize_buckets_resize_entries.induct)
  case (1 keyName keyValue h)
  obtain bucket h1 where gb: "getBucket keyName h = (bucket, h1)"
    by (cases "getBucket keyName h")
  note g = getBucket_props [OF gb]
  show ?case
  proof (intro impI)
    assume a: "dense h \<and> int (length (buckets h)) = size' h"
    then have kh: "kept h" and ds: "0 < size' h" "None \<notin> set (buckets h)"
      "size' h \<le> int (length (buckets h))"
      by (simp_all add: dense_def)
    from dense_getBucket [OF ds gb] have h1: "h1 = h" and i: "nat (hash keyName h) < length (buckets h)"
      by simp_all
    show "int (length (buckets (snd (setItem keyName keyValue h)))) = size' (snd (setItem keyName keyValue h))"
    proof (cases "setItem_scan keyName keyValue bucket")
      case None
      let ?h2 = "h1\<lparr>buckets := set_slot (buckets h1) (nat (hash keyName h1))
                    (bucket @ [(keyName, keyValue)]), count := count h1 + 1\<rparr>"
      have res: "setItem keyName keyValue h = checkLoadFactor ?h2"
        using None gb by (simp add: setItem.simps)
      have "stored ?h2 = stored h + 1"
        using stored_bucket_replaced [OF gb, of "bucket @ [(keyName, keyValue)]"] by simp
      then have "counted ?h2"
        using kh g by (simp add: kept_def counted_def)
      moreover have "None \<notin> set (buckets ?h2) \<and> length (buckets ?h2) = length (buckets h)"
        using set_slot_dense [OF i ds(2)] h1 by simp
      ultimately show ?thesis
        using 1 [OF gb [symmetric] refl refl None] ds g a unfolding res by simp
    next
      case (Some bucket')
      let ?y = "h1\<lparr>buckets := set_slot (buckets h1) (nat (hash keyName h1)) bucket'\<rparr>"
      have res: "setItem keyName keyValue h = (Inr (), ?y)"
        using Some gb by (simp add: setItem.simps)
      have "length (buckets ?y) = length (buckets h)"
        using set_slot_dense [OF i ds(2)] h1 by simp
      then show ?thesis
        using a h1 unfolding res by simp
    qed
  qed
next
  case (2 h)
  show ?case
  proof (cases "loadFactor < rat_of_int (count h) / rat_of_int (size' h)")
    case True
    then have res: "checkLoadFactor h = resize (size' h * 2) h"
      by (simp add: checkLoadFactor.simps)
    show ?thesis
      using 2 [OF refl True] unfolding res by simp
  next
    case False
    then show ?thesis by (simp add: checkLoadFactor.simps)
  qed
next
  case (3 newSize h)
  define y where "y = h\<lparr>size' := newSize, count := 0\<rparr>"
  define xab where "xab = y\<lparr>buckets := replicate (nat newSize) (Some [])\<rparr>"
  define f where "f = xab\<lparr>console := console xab @ [newSize]\<rparr>"
  have nw: "(replicate (nat newSize) (Some []), y) = new newSize (h\<lparr>size' := newSize\<rparr>)"
    by (simp add: new_def y_def)
  have res: "resize newSize h = resize_buckets (buckets h) f"
    using nw [symmetric] by (simp add: resize.simps f_def xab_def Let_def)
  have "dense f \<and> None \<notin> set (buckets h) \<and> int (length (buckets f)) = size' f \<longrightarrow>
      int (length (buckets (snd (resize_buckets (buckets h) f)))) =
        size' (snd (resize_buckets (buckets h) f))"
    by (rule 3 [OF refl refl refl nw xab_def f_def])
  moreover have "0 < newSize \<Longrightarrow> dense f \<and> int (length (buckets f)) = size' f"
    by (simp add: f_def xab_def y_def dense_def kept_def counted_def)
  ultimately show ?case unfolding res by blast
next
  case (4 h)
  then show ?case by simp
next
  case (5 b bs h)
  show ?case
  proof (cases b)
    case None
    then show ?thesis by simp
  next
    case (Some x2)
    obtain r h' where re: "resize_entries x2 h = (r, h')"
      by (cases "resize_entries x2 h")
    have s1: "dense h \<and> int (length (buckets h)) = size' h \<longrightarrow>
        dense h' \<and> int (length (buckets h')) = size' h'"
      using 5(1) [OF Some] dense_preserved(5) [of h x2] re by simp
    show ?thesis
    proof (cases r)
      case (Inl e)
      then show ?thesis using Some re s1 by simp
    next
      case (Inr u)
      have "dense h' \<and> None \<notin> set bs \<and> int (length (buckets h')) = size' h' \<longrightarrow>
          int (length (buckets (snd (resize_buckets bs h')))) = size' (snd (resize_buckets bs h'))"
        using 5(2) [OF Some re [symmetric] Inr] .
      with s1 show ?thesis using Some re Inr by simp
    qed
  qed
next
  case (6 h)
  then show ?case by simp
next
  case (7 key val es h)
  obtain r h' where re: "setItem key val h = (r, h')"
    by (cases "setItem key val h")
  have s1: "dense h \<and> int (length (buckets h)) = size' h \<longrightarrow>
      dense h' \<and> int (length (buckets h')) = size' h'"
    using 7(1) dense_preserved(1) [of h key val] re by simp
  show ?case
  proof (cases r)
    case (Inl e)
    then show ?thesis using re s1 by simp
  next
    case (Inr u)
    have "dense h' \<and> int (length (buckets h')) = size' h' \<longrightarrow>
        int (length (buckets (snd (resize_entries es h')))) = size' (snd (resize_entries es h'))"
      using 7(2) [OF re [symmetric] Inr] .
    with s1 show ?thesis using re Inr by simp
  qed
qed

lemma removeItem_scan_map:
  "removeItem_scan k b = Some b' \<Longrightarrow> distinct (map fst b) \<Longrightarrow>
     map_of b' = (map_of b)(k := None)"
proof (induction b arbitrary: b')
  case Nil
  then show ?case by simp
next
  case (Cons e es)
  obtain k' v' where e: "e = (k', v')" by (cases e)
  show ?case
  proof (cases "k' = k")
    case True
    with Cons.prems e have "b' = es" "map_of es k = None"
      by (auto simp: map_of_eq_None_iff)
    with True e show ?thesis by (intro ext) auto
  next
    case False
    with Cons.prems e obtain es' where es': "removeItem_scan k es = Some es'" "b' = (k', v') # es'"
      by auto
    from Cons.IH [OF es'(1)] Cons.prems(2) es'(2) e False show ?thesis
      by (intro ext) auto
  qed
qed

lemma map_of_bucket_remove:
  assumes p: "placed h" and s: "slot (buckets h) i = Some b" and i: "i = nat (hash k h)"
    and m: "map_of b' = (map_of b)(k := None)"
  shows "map_of (flat (set_slot (buckets h) i b')) = (map_of (flat (buckets h)))(k := None)"
proof -
  from slot_split [OF s] obtain A C where
    fl: "flat (buckets h) = A @ b @ C" and fl': "flat (set_slot (buckets h) i b') = A @ b' @ C"
    and far: "\<forall>e \<in> set A \<union> set C. \<exists>j c. j \<noteq> i \<and> slot (buckets h) j = Some c \<and> e \<in> set c"
    by blast
  have pl: "\<And>j c e. slot (buckets h) j = Some c \<Longrightarrow> e \<in> set c \<Longrightarrow> nat (hash (fst e) h) = j"
    using p by (auto simp: placed_def)
  have nk: "fst e \<noteq> k" if "e \<in> set A \<union> set C" for e
  proof -
    from far that obtain j c where "j \<noteq> i" "slot (buckets h) j = Some c" "e \<in> set c" by blast
    with pl [of j c e] i show ?thesis by auto
  qed
  then have "map_of A k = None" "map_of C k = None"
    by (auto simp: map_of_eq_None_iff)
  then show ?thesis
    unfolding fl fl' using m
    by (intro ext) (simp add: map_add_def split: option.splits)
qed

text \<open>
  A rebuild of a table without holes returns, keeps every entry, and ends at the requested
  size, or at twice that size when the entries exceed 0.70 of it and the re-insertion grows
  the table once more.
\<close>

lemma resize_exact:
  assumes p: "placed h" and c: "counted h" and d: "None \<notin> set (buckets h)"
    and n: "0 < n" and room: "10 * count h \<le> 14 * n"
  shows "fst (resize n h) = Inr () \<and> dense (snd (resize n h)) \<and> placed (snd (resize n h)) \<and>
     int (length (buckets (snd (resize n h)))) = size' (snd (resize n h)) \<and>
     map_of (flat (buckets (snd (resize n h)))) = map_of (flat (buckets h)) \<and>
     count (snd (resize n h)) = count h \<and>
     size' (snd (resize n h)) = (if 7 * n < 10 * count h then n * 2 else n) \<and>
     console (snd (resize n h)) = console h @ (if 7 * n < 10 * count h then [n, n * 2] else [n])"
proof -
  let ?y = "snd (resize n h)"
  have dn: "dense ?y" "fst (resize n h) = Inr ()"
    using dense_preserved(3) [of n h] n d by simp_all
  have len: "int (length (buckets ?y)) = size' ?y"
    using bucket_count_preserved(3) [of n h] n d by simp
  have "distinct (map fst (flat (buckets h)))" using p by (simp add: placed_def)
  with setItem_model(3) [of h n] dn(2)
  have py: "placed ?y" and m: "map_of (flat (buckets ?y)) = map_of (flat (buckets h))"
    by simp_all
  have ky: "kept ?y" using dn(1) by (simp add: dense_def)
  have "stored ?y = stored h"
    using stored_card [OF py] stored_card [OF p] m by simp
  with ky c have cnt: "count ?y = count h" by (simp add: kept_def counted_def)
  have "10 * int (stored h) \<le> 14 * n" using room c by (simp add: counted_def)
  from resize_phase [OF n this]
  have ph: "size' ?y = n \<and> console ?y = console h @ [n] \<or>
            size' ?y = n * 2 \<and> console ?y = console h @ [n, n * 2]"
    by (simp add: phase_def)
  have "size' ?y = (if 7 * n < 10 * count h then n * 2 else n) \<and>
     console ?y = console h @ (if 7 * n < 10 * count h then [n, n * 2] else [n])"
  proof (cases "7 * n < 10 * count h")
    case True
    have "size' ?y \<noteq> n"
    proof
      assume "size' ?y = n"
      with ky n have "10 * count ?y \<le> 7 * n" by (simp add: kept_def)
      with cnt True show False by simp
    qed
    with ph True show ?thesis by auto
  next
    case False
    then have "10 * int (stored h) \<le> 7 * n" using c by (simp add: counted_def)
    from quiet_resize [OF n this] False show ?thesis by simp
  qed
  with dn len py m cnt show ?thesis by simp
qed

lemma setItem_rebuild_exact:
  assumes r: "reachable h" and d: "dense h" and new: "fst (getItem k h) = None"
    and over: "loadFactor < rat_of_int (count h + 1) / rat_of_int (size' h)"
  shows "fst (setItem k v h) = Inr () \<and>
     size' (snd (setItem k v h)) = size' h * 2 \<and>
     console (snd (setItem k v h)) = console h @ [size' h * 2] \<and>
     int (length (buckets (snd (setItem k v h)))) = size' h * 2 \<and>
     None \<notin> set (buckets (snd (setItem k v h))) \<and>
     count (snd (setItem k v h)) = count h + 1 \<and>
     (\<forall>k'. fst (getItem k' (snd (setItem k v h))) = (if k' = k then Some v else fst (getItem k' h)))"
proof -
  let ?y = "snd (setItem k v h)"
  have kh: "kept h" using r by (rule reachable_kept)
  have ph: "placed h" using r by (rule reachable_placed)
  from d have ds: "0 < size' h" "None \<notin> set (buckets h)" "size' h \<le> int (length (buckets h))"
    by (simp_all add: dense_def)
  obtain b h1 where gb: "getBucket k h = (b, h1)"
    by (cases "getBucket k h")
  note g = getBucket_props [OF gb]
  from dense_getBucket [OF ds gb] have h1: "h1 = h" and i: "nat (hash k h) < length (buckets h)"
    by simp_all
  have nk: "k \<notin> fst ` set b" using new getItem_None [OF gb] by simp
  let ?h2 = "h1\<lparr>buckets := set_slot (buckets h1) (nat (hash k h)) (b @ [(k, v)]),
                  count := count h + 1\<rparr>"
  from over have "0 < size' h \<and> 7 * size' h < 10 * (count h + 1) \<or>
      size' h < 0 \<and> 10 * (count h + 1) < 7 * size' h"
    by (simp only: loadFactor_less_iff)
  with ds(1) have ex: "7 * size' h < 10 * (count h + 1)" by simp
  have res: "setItem k v h = resize (size' h * 2) ?h2"
    unfolding setItem_new_key [OF gb nk] checkLoadFactor_eq using ds(1) ex g by simp
  have go: "console ?y = console h @ [size' h * 2]" "size' ?y = size' h * 2"
    using grow_once [OF kh gb nk over, of v] by simp_all
  have dn: "dense ?y" "fst (setItem k v h) = Inr ()"
    using dense_preserved(1) [of h k v] d by simp_all
  have "None \<notin> set (buckets ?h2)"
    using set_slot_dense [OF i ds(2)] h1 by simp
  then have len: "int (length (buckets ?y)) = size' ?y"
    using bucket_count_preserved(3) [of "size' h * 2" ?h2] ds(1) unfolding res by simp
  have gi: "fst (getItem k' ?y) = (if k' = k then Some v else fst (getItem k' h))" for k'
    using getItem_after_setItem [OF r dn(2)] .
  have py: "placed ?y" using setItem_model(1) [of h k v] ph by simp
  have "map_of (flat (buckets ?y)) = (map_of (flat (buckets h)))(k \<mapsto> v)"
    using setItem_model(1) [of h k v] ph dn(2) by simp
  moreover have "map_of (flat (buckets h)) k = None"
    using getItem_placed [OF ph, of k] new by simp
  ultimately have "card (dom (map_of (flat (buckets ?y)))) = card (dom (map_of (flat (buckets h)))) + 1"
    by (simp add: domIff finite_dom_map_of)
  then have "stored ?y = stored h + 1"
    using stored_card [OF py] stored_card [OF ph] by simp
  moreover have "kept ?y" using dn(1) by (simp add: dense_def)
  ultimately have cnt: "count ?y = count h + 1"
    using kh by (simp add: kept_def counted_def)
  from dn go len gi cnt show ?thesis by (simp add: dense_def)
qed


lemma removeItem_rebuild_exact:
  assumes r: "reachable h" and d: "dense h" and present: "fst (getItem k h) \<noteq> None"
    and under: "rat_of_int (count h - 1) / rat_of_int (size' h) < 4 / 10"
    and big: "10 < size' h"
  shows "fst (removeItem k h) = Inr () \<and>
     size' (snd (removeItem k h)) =
       (if 7 * ((size' h + 1) div 2) < 10 * (count h - 1)
        then (size' h + 1) div 2 * 2 else (size' h + 1) div 2) \<and>
     console (snd (removeItem k h)) = console h @
       (if 7 * ((size' h + 1) div 2) < 10 * (count h - 1)
        then [(size' h + 1) div 2, (size' h + 1) div 2 * 2] else [(size' h + 1) div 2]) \<and>
     int (length (buckets (snd (removeItem k h)))) = size' (snd (removeItem k h)) \<and>
     None \<notin> set (buckets (snd (removeItem k h))) \<and>
     count (snd (removeItem k h)) = count h - 1 \<and>
     (\<forall>k'. fst (getItem k' (snd (removeItem k h))) =
        (if k' = k then None else fst (getItem k' h)))"
proof -
  let ?y = "snd (removeItem k h)"
  let ?n = "(size' h + 1) div 2"
  have kh: "kept h" using r by (rule reachable_kept)
  have ph: "placed h" using r by (rule reachable_placed)
  from d have ds: "0 < size' h" "None \<notin> set (buckets h)" "size' h \<le> int (length (buckets h))"
    by (simp_all add: dense_def)
  obtain b h1 where gb: "getBucket k h = (b, h1)"
    by (cases "getBucket k h")
  note g = getBucket_props [OF gb]
  from dense_getBucket [OF ds gb] have h1: "h1 = h" and i: "nat (hash k h) < length (buckets h)"
    by simp_all
  have sl: "slot (buckets h) (nat (hash k h)) = Some b" using g h1 by simp
  have kb: "k \<in> fst ` set b" using present getItem_None [OF gb] by simp
  then obtain b' where sc: "removeItem_scan k b = Some b'"
    using removeItem_scan_None [of k b] by (cases "removeItem_scan k b") auto
  let ?h2 = "h\<lparr>buckets := set_slot (buckets h) (nat (hash k h)) b', count := count h - 1\<rparr>"
  have rm: "removeItem k h = checkUnderLoadFactor ?h2"
    using sc gb h1 by (simp add: removeItem_def Let_def)
  have u: "10 * (count h - 1) < 4 * size' h"
    using under big underload_iff [of "size' h" "count h - 1"] by simp
  have res: "removeItem k h = resize ?n ?h2"
    unfolding rm checkUnderLoadFactor_eq using u big by simp
  have db: "distinct (map fst b)" using placed_bucket_distinct [OF ph sl] .
  from removeItem_scan_Some [OF sc] db
  have "distinct (map fst b')" "fst ` set b' \<subseteq> insert k (fst ` set b)" by auto
  then have "placed (h\<lparr>buckets := set_slot (buckets h) (nat (hash k h)) b'\<rparr>)"
    using placed_bucket_update [OF ph sl refl, of b'] by simp
  then have p2: "placed ?h2"
    by simp
  have m2: "map_of (flat (buckets ?h2)) = (map_of (flat (buckets h)))(k := None)"
    using map_of_bucket_remove [OF ph sl refl removeItem_scan_map [OF sc db]] by simp
  have kin: "k \<in> dom (map_of (flat (buckets h)))"
    using getItem_placed [OF ph, of k] present by (auto simp: domIff)
  have "card (dom (map_of (flat (buckets ?h2)))) = card (dom (map_of (flat (buckets h)))) - 1"
    unfolding m2 using kin by (simp add: finite_dom_map_of)
  then have st: "stored ?h2 = stored h - 1"
    using stored_card [OF p2] stored_card [OF ph] by simp
  have "0 < stored h"
    using kin stored_card [OF ph] by (auto simp: card_gt_0_iff finite_dom_map_of)
  with st kh have c2: "counted ?h2" by (simp add: kept_def counted_def)
  have d2: "None \<notin> set (buckets ?h2)"
    using set_slot_dense [OF i ds(2)] by simp
  have n: "0 < ?n" using big by simp
  have "size' h \<le> 2 * ?n" by presburger
  with u n have room: "10 * count ?h2 \<le> 14 * ?n" by simp
  note ex = resize_exact [OF p2 c2 d2 n room, folded res]
  have py: "placed ?y" using ex by simp
  have gi: "fst (getItem k' ?y) = (if k' = k then None else fst (getItem k' h))" for k'
    using getItem_placed [OF py, of k'] getItem_placed [OF ph, of k'] ex m2 by simp
  from ex gi show ?thesis by (simp add: dense_def)
qed

lemma regrown_iff:
  "10 < s \<Longrightarrow> loadFactor < rat_of_int c / rat_of_int ((s + 1) div 2)
     \<longleftrightarrow> 7 * ((s + 1) div 2) < 10 * c"
  unfolding loadFactor_less_iff by auto

section \<open>The claims\<close>

text \<open>
  C1. The claim: \<open>clear()\<close> restores the initial size 4. \<open>clear\<close> replaces the bucket
  array by four empty buckets and resets \<open>count\<close>, but leaves \<open>#size\<close>: after three
  inserts have grown a fresh table to 8, the cleared table still has size 8, and three
  further inserts do not grow it, where a fresh table grows at the third.
\<close>

theorem clear_keeps_grown_size:
  "size' (projr (constructor None)) = 4 \<and>
   console (after_calls abc (projr (constructor None))) = [8] \<and>
   after_calls (abc @ [Clear]) (projr (constructor None)) =
     \<lparr>size' = 8, buckets = [Some [], Some [], Some [], Some []], count = 0, console = [8]\<rparr> \<and>
   size' (after_calls (abc @ [Clear] @ abc) (projr (constructor None))) = 8 \<and>
   console (after_calls (abc @ [Clear] @ abc) (projr (constructor None))) = [8]"
  by code_simp

text \<open>
  C2. The claim: the hash is exactly 32-bit FNV-1a. The code multiplies as a double:
  for the key \<open>"b"\<close> the product has more than 53 significant bits and is rounded
  before \<open>>>> 0\<close> reduces it, so the result is 3876335076 where FNV-1a is 3876335077.
\<close>

theorem hash_b_differs_from_fnv1a:
  "hash_loop FNV_OFFSET_BASIS (ascii ''b'') = 3876335076 \<and>
   fnv1a_spec (ascii ''b'') = 3876335077 \<and>
   hash_loop FNV_OFFSET_BASIS (ascii ''abc'') = 440920332 \<and>
   fnv1a_spec (ascii ''abc'') = 440920331"
  by code_simp

text \<open>
  C3. The claim: a rebuild never fires a further resize while it re-inserts the entries.
  It fails for a rebuild started by the shrink check: seven keys in a fresh table leave
  size 16; removing one leaves 6 entries, the shrink to 8 re-inserts them, and the sixth
  re-insertion (6/8 > 0.70) grows the table back to 16.
\<close>

theorem shrink_rebuild_fires_grow:
  "console (after_calls a_to_g (projr (constructor None))) = [8, 16] \<and>
   size' (after_calls a_to_g (projr (constructor None))) = 16 \<and>
   count (after_calls a_to_g (projr (constructor None))) = 7 \<and>
   console (after_calls (a_to_g @ [RemoveItem (ascii ''a'')]) (projr (constructor None))) = [8, 16, 8, 16] \<and>
   size' (after_calls (a_to_g @ [RemoveItem (ascii ''a'')]) (projr (constructor None))) = 16"
  by code_simp

text \<open>
  C3, as amended. In every reachable state of positive size \<open>count / size\<close> is at most
  the load factor, and a rebuild started by the grow check fires no further resize: the
  insert of a new key that exceeds the load factor writes exactly one resize, to twice
  the size, and leaves that size.
\<close>

theorem grow_rebuild_fires_no_resize:
  assumes "reachable h"
  shows "(0 < size' h \<longrightarrow> rat_of_int (count h) / rat_of_int (size' h) \<le> loadFactor) \<and>
         (fst (getItem k h) = None \<and>
          loadFactor < rat_of_int (count h + 1) / rat_of_int (size' h) \<longrightarrow>
            console (snd (setItem k v h)) = console h @ [size' h * 2] \<and>
            size' (snd (setItem k v h)) = size' h * 2)"
proof -
  have kh: "kept h" using assms by (rule reachable_kept)
  obtain b h1 where gb: "getBucket k h = (b, h1)"
    by (cases "getBucket k h")
  have "0 < size' h \<longrightarrow> rat_of_int (count h) / rat_of_int (size' h) \<le> loadFactor"
    using kh by (simp add: within_load_iff kept_def)
  moreover have "console (snd (setItem k v h)) = console h @ [size' h * 2] \<and>
        size' (snd (setItem k v h)) = size' h * 2"
    if "fst (getItem k h) = None"
      and "loadFactor < rat_of_int (count h + 1) / rat_of_int (size' h)"
    using grow_once [OF kh gb _ that(2)] that(1) getItem_None [OF gb] by simp
  ultimately show ?thesis by blast
qed

theorem grow_rebuild_fires_no_resize_witness:
  "reachable (after_calls (take 2 abc) (projr (constructor None))) \<and>
   fst (getItem (ascii ''c'') (after_calls (take 2 abc) (projr (constructor None)))) = None \<and>
   loadFactor < rat_of_int (count (after_calls (take 2 abc) (projr (constructor None))) + 1)
                / rat_of_int (size' (after_calls (take 2 abc) (projr (constructor None)))) \<and>
   console (snd (setItem (ascii ''c'') (ascii ''3'')
      (after_calls (take 2 abc) (projr (constructor None))))) = [8] \<and>
   size' (snd (setItem (ascii ''c'') (ascii ''3'')
      (after_calls (take 2 abc) (projr (constructor None))))) = 8"
proof -
  let ?h = "after_calls (take 2 abc) (projr (constructor None))"
  have r: "reachable ?h"
    by (rule reachable_after_calls) (simp add: reachable_constructed)
  have a: "fst (getItem (ascii ''c'') ?h) = None" by code_simp
  have o: "loadFactor < rat_of_int (count ?h + 1) / rat_of_int (size' ?h)" by code_simp
  have c: "console ?h = []" "size' ?h = 4" by code_simp+
  from grow_rebuild_fires_no_resize [OF r, of "ascii ''c''" "ascii ''3''"] r a o c
  show ?thesis by simp
qed

text \<open>
  C4. The claim: after every insert of a new key with \<open>count / size > 0.70\<close> the table
  is rebuilt at once with twice the size. On a table without holes it is (lemma
  \<open>setItem_rebuild_exact\<close>: the call returns, the table has \<open>size * 2\<close> buckets, the
  console shows that one resize, and the new entry and every old one are found), and a
  fresh table grows to 8 at its third key (lemma \<open>third_key_grows\<close>). After \<open>clear()\<close>
  on a grown table the rebuild does not complete: \<open>clear()\<close> leaves size 8 over 4
  buckets, the five keys c, e, n, o, p of slot 0 fill the table to 5/8, and the new key x2,
  of slot 6, raises the count to 6 (6/8 > 0.70); \<open>#resize\<close> sets the size to 16 and
  throws on the hole at slot 4 before it reaches slot 6, so the insert fails with a
  \<open>TypeError\<close> and the new key is not in the table.
\<close>

theorem grow_rebuild_aborts_on_hole:
  "size' (after_calls (abc @ [Clear] @ cenop) (projr (constructor None))) = 8 \<and>
   count (after_calls (abc @ [Clear] @ cenop) (projr (constructor None))) = 5 \<and>
   console (after_calls (abc @ [Clear] @ cenop) (projr (constructor None))) = [8] \<and>
   fst (getItem (ascii ''x2'') (after_calls (abc @ [Clear] @ cenop) (projr (constructor None)))) = None \<and>
   loadFactor < rat_of_int (5 + 1) / rat_of_int 8 \<and>
   setItem (ascii ''x2'') (ascii ''v'') (after_calls (abc @ [Clear] @ cenop) (projr (constructor None))) =
     (Inl TypeError,
      \<lparr>size' = 16,
       buckets = Some (map (\<lambda>k. (ascii k, ascii ''v'')) [''c'', ''e'', ''n'', ''o'', ''p''])
                 # replicate 15 (Some []),
       count = 5, console = [8, 16]\<rparr>) \<and>
   fst (getItem (ascii ''x2'') (snd (setItem (ascii ''x2'') (ascii ''v'')
     (after_calls (abc @ [Clear] @ cenop) (projr (constructor None)))))) = None"
  by code_simp

text \<open>
  C5. The claim: after the removal of a present key with \<open>count / size < 0.40\<close> and
  \<open>size > 10\<close> the table is rebuilt with \<open>newSize = ceil(size * 0.50)\<close>. With the
  seven keys a to g in a table constructed with size 16, the removal of a leaves
  6/16 < 0.40; the rebuild to 8 re-inserts through \<open>setItem\<close>, whose grow check fires at
  the sixth entry (6/8 > 0.70), and the table is left with 16 buckets, not 8.
\<close>

theorem shrink_leaves_table_at_old_size:
  "fst (getItem (ascii ''a'') (after_calls a_to_g (projr (constructor (Some 16))))) \<noteq> None \<and>
   size' (after_calls a_to_g (projr (constructor (Some 16)))) = 16 \<and>
   count (after_calls a_to_g (projr (constructor (Some 16)))) = 7 \<and>
   console (after_calls a_to_g (projr (constructor (Some 16)))) = [] \<and>
   rat_of_int (7 - 1) / rat_of_int 16 < 4 / 10 \<and> (10 :: int) < 16 \<and>
   \<lceil>rat_of_int 16 * (1 / 2)\<rceil> = 8 \<and>
   fst (removeItem (ascii ''a'') (after_calls a_to_g (projr (constructor (Some 16))))) = Inr () \<and>
   size' (snd (removeItem (ascii ''a'') (after_calls a_to_g (projr (constructor (Some 16)))))) = 16 \<and>
   length (buckets (snd (removeItem (ascii ''a'')
     (after_calls a_to_g (projr (constructor (Some 16))))))) = 16 \<and>
   console (snd (removeItem (ascii ''a'') (after_calls a_to_g (projr (constructor (Some 16)))))) = [8, 16]"
  by code_simp

text \<open>
  C5, as amended. After the removal of a present key from a table without holes, if
  \<open>count / size < 0.40\<close> and \<open>size > 10\<close>, the table is rebuilt with
  \<open>newSize = ceil(size * 0.50)\<close> buckets, and once more with twice that when the
  remaining count exceeds 0.70 of \<open>newSize\<close>: the call returns, the console shows these
  resizes and no other, the table has as many buckets as its final size and none is
  missing, the removed key is gone and every other key keeps its value. \<open>newSize\<close> may
  be 10 or less (11 shrinks to 6, in the witness), and a table of size 10 or less is never
  shrunk.
\<close>

theorem shrink_rebuilds_table_after_removal:
  "(reachable h \<and> dense h \<and> fst (getItem k h) \<noteq> None \<and>
    rat_of_int (count h - 1) / rat_of_int (size' h) < 4 / 10 \<and> 10 < size' h \<longrightarrow>
      (let newSize = \<lceil>rat_of_int (size' h) * (1 / 2)\<rceil>;
           regrown = (loadFactor < rat_of_int (count h - 1) / rat_of_int newSize);
           h' = snd (removeItem k h)
       in fst (removeItem k h) = Inr () \<and>
          size' h' = (if regrown then newSize * 2 else newSize) \<and>
          console h' = console h @ (if regrown then [newSize, newSize * 2] else [newSize]) \<and>
          int (length (buckets h')) = size' h' \<and> None \<notin> set (buckets h') \<and>
          count h' = count h - 1 \<and>
          (\<forall>k'. fst (getItem k' h') = (if k' = k then None else fst (getItem k' h))))) \<and>
   (size' h \<le> 10 \<longrightarrow>
      console (snd (removeItem k h)) = console h \<and> size' (snd (removeItem k h)) = size' h)"
proof -
  have "size' h \<le> 10 \<longrightarrow>
      console (snd (removeItem k h)) = console h \<and> size' (snd (removeItem k h)) = size' h"
    using removeItem_small [of h k] by simp
  moreover have "reachable h \<and> dense h \<and> fst (getItem k h) \<noteq> None \<and>
    rat_of_int (count h - 1) / rat_of_int (size' h) < 4 / 10 \<and> 10 < size' h \<longrightarrow>
      (let newSize = \<lceil>rat_of_int (size' h) * (1 / 2)\<rceil>;
           regrown = (loadFactor < rat_of_int (count h - 1) / rat_of_int newSize);
           h' = snd (removeItem k h)
       in fst (removeItem k h) = Inr () \<and>
          size' h' = (if regrown then newSize * 2 else newSize) \<and>
          console h' = console h @ (if regrown then [newSize, newSize * 2] else [newSize]) \<and>
          int (length (buckets h')) = size' h' \<and> None \<notin> set (buckets h') \<and>
          count h' = count h - 1 \<and>
          (\<forall>k'. fst (getItem k' h') = (if k' = k then None else fst (getItem k' h))))"
  proof
    assume a: "reachable h \<and> dense h \<and> fst (getItem k h) \<noteq> None \<and>
      rat_of_int (count h - 1) / rat_of_int (size' h) < 4 / 10 \<and> 10 < size' h"
    then have big: "10 < size' h" by simp
    from a have "reachable h" "dense h" "fst (getItem k h) \<noteq> None"
      "rat_of_int (count h - 1) / rat_of_int (size' h) < 4 / 10" by simp_all
    from removeItem_rebuild_exact [OF this big] show "let newSize = \<lceil>rat_of_int (size' h) * (1 / 2)\<rceil>;
           regrown = (loadFactor < rat_of_int (count h - 1) / rat_of_int newSize);
           h' = snd (removeItem k h)
       in fst (removeItem k h) = Inr () \<and>
          size' h' = (if regrown then newSize * 2 else newSize) \<and>
          console h' = console h @ (if regrown then [newSize, newSize * 2] else [newSize]) \<and>
          int (length (buckets h')) = size' h' \<and> None \<notin> set (buckets h') \<and>
          count h' = count h - 1 \<and>
          (\<forall>k'. fst (getItem k' h') = (if k' = k then None else fst (getItem k' h)))"
      unfolding Let_def shrink_size regrown_iff [OF big] .
  qed
  ultimately show ?thesis by simp
qed

theorem shrink_rebuilds_table_after_removal_witness:
  "reachable (after_calls a_to_d (projr (constructor (Some 11)))) \<and>
   dense (after_calls a_to_d (projr (constructor (Some 11)))) \<and>
   fst (getItem (ascii ''a'') (after_calls a_to_d (projr (constructor (Some 11))))) \<noteq> None \<and>
   size' (after_calls a_to_d (projr (constructor (Some 11)))) = 11 \<and>
   count (after_calls a_to_d (projr (constructor (Some 11)))) = 4 \<and>
   fst (removeItem (ascii ''a'') (after_calls a_to_d (projr (constructor (Some 11))))) = Inr () \<and>
   size' (snd (removeItem (ascii ''a'') (after_calls a_to_d (projr (constructor (Some 11)))))) = 6 \<and>
   console (snd (removeItem (ascii ''a'') (after_calls a_to_d (projr (constructor (Some 11)))))) = [6] \<and>
   length (buckets (snd (removeItem (ascii ''a'')
     (after_calls a_to_d (projr (constructor (Some 11))))))) = 6 \<and>
   count (snd (removeItem (ascii ''a'') (after_calls a_to_d (projr (constructor (Some 11)))))) = 3 \<and>
   fst (getItem (ascii ''a'') (snd (removeItem (ascii ''a'')
     (after_calls a_to_d (projr (constructor (Some 11))))))) = None \<and>
   fst (getItem (ascii ''b'') (snd (removeItem (ascii ''a'')
     (after_calls a_to_d (projr (constructor (Some 11))))))) = Some (ascii ''v'') \<and>
   reachable (after_calls a_to_g (projr (constructor (Some 16)))) \<and>
   dense (after_calls a_to_g (projr (constructor (Some 16)))) \<and>
   size' (snd (removeItem (ascii ''a'') (after_calls a_to_g (projr (constructor (Some 16)))))) = 16 \<and>
   console (snd (removeItem (ascii ''a'') (after_calls a_to_g (projr (constructor (Some 16)))))) = [8, 16] \<and>
   count (snd (removeItem (ascii ''a'') (after_calls a_to_g (projr (constructor (Some 16)))))) = 6 \<and>
   fst (getItem (ascii ''g'') (snd (removeItem (ascii ''a'')
     (after_calls a_to_g (projr (constructor (Some 16))))))) = Some (ascii ''v'') \<and>
   size' (projr (constructor (Some 10))) \<le> 10 \<and>
   console (snd (removeItem (ascii ''a'') (projr (constructor (Some 10))))) = []"
proof -
  let ?h = "after_calls a_to_d (projr (constructor (Some 11)))"
  let ?g = "after_calls a_to_g (projr (constructor (Some 16)))"
  have r: "reachable ?h" "reachable ?g"
    by (rule reachable_after_calls, simp add: reachable_constructed)+
  have d: "dense ?h" "dense ?g" by code_simp+
  have p: "fst (getItem (ascii ''a'') ?h) \<noteq> None" "fst (getItem (ascii ''a'') ?g) \<noteq> None"
    by code_simp+
  have s: "size' ?h = 11" "count ?h = 4" "console ?h = []"
          "size' ?g = 16" "count ?g = 7" "console ?g = []" by code_simp+
  have u: "rat_of_int (count ?h - 1) / rat_of_int (size' ?h) < 4 / 10" "10 < size' ?h"
          "rat_of_int (count ?g - 1) / rat_of_int (size' ?g) < 4 / 10" "10 < size' ?g"
    unfolding s by simp_all
  have c: "\<lceil>rat_of_int (size' ?h) * (1 / 2)\<rceil> = 6" "\<lceil>rat_of_int (size' ?g) * (1 / 2)\<rceil> = 8"
    unfolding s shrink_size by simp_all
  have l: "\<not> loadFactor < rat_of_int (count ?h - 1) / rat_of_int 6"
          "loadFactor < rat_of_int (count ?g - 1) / rat_of_int 8"
    unfolding s by (simp_all add: loadFactor_def)
  have b: "fst (getItem (ascii ''b'') ?h) = Some (ascii ''v'')"
          "fst (getItem (ascii ''g'') ?g) = Some (ascii ''v'')" by code_simp+
  have ne: "ascii ''b'' \<noteq> ascii ''a''" "ascii ''g'' \<noteq> ascii ''a''" by (simp_all add: ascii_def)
  have t: "size' (projr (constructor (Some 10))) \<le> 10" by code_simp
  have f: "console (projr (constructor (Some 10))) = []" by code_simp
  from shrink_rebuilds_table_after_removal [of ?h "ascii ''a''"] r(1) d(1) p(1) u(1,2)
  have one: "fst (removeItem (ascii ''a'') ?h) = Inr ()"
    "size' (snd (removeItem (ascii ''a'') ?h)) = 6"
    "console (snd (removeItem (ascii ''a'') ?h)) = [6]"
    "int (length (buckets (snd (removeItem (ascii ''a'') ?h)))) = 6"
    "count (snd (removeItem (ascii ''a'') ?h)) = 3"
    "fst (getItem (ascii ''a'') (snd (removeItem (ascii ''a'') ?h))) = None"
    "fst (getItem (ascii ''b'') (snd (removeItem (ascii ''a'') ?h))) = Some (ascii ''v'')"
    unfolding Let_def c using l(1) s(2,3) b(1) ne(1) by simp_all
  from shrink_rebuilds_table_after_removal [of ?g "ascii ''a''"] r(2) d(2) p(2) u(3,4)
  have two: "size' (snd (removeItem (ascii ''a'') ?g)) = 16"
    "console (snd (removeItem (ascii ''a'') ?g)) = [8, 16]"
    "count (snd (removeItem (ascii ''a'') ?g)) = 6"
    "fst (getItem (ascii ''g'') (snd (removeItem (ascii ''a'') ?g))) = Some (ascii ''v'')"
    unfolding Let_def c using l(2) s(5,6) b(2) ne(2) by simp_all
  from shrink_rebuilds_table_after_removal [of "projr (constructor (Some 10))" "ascii ''a''"] t f
  have three: "console (snd (removeItem (ascii ''a'') (projr (constructor (Some 10))))) = []"
    by simp
  from one(4) have "length (buckets (snd (removeItem (ascii ''a'') ?h))) = 6" by simp
  with r d p s one two three t show ?thesis by simp
qed

text \<open>
  C6. The claim: a zero or negative size is rejected when the table is constructed. The
  constructor has no such check: for 0 it takes the initial size 4, and a negative size is
  kept, with an empty bucket array that later calls fill slot by slot.
\<close>

theorem constructor_accepts_zero_and_negative_size:
  "constructor (Some 0) =
     Inr \<lparr>size' = 4, buckets = [Some [], Some [], Some [], Some []], count = 0, console = []\<rparr> \<and>
   constructor (Some (- 3)) = Inr \<lparr>size' = - 3, buckets = [], count = 0, console = []\<rparr> \<and>
   setItem (ascii ''a'') (ascii ''1'') (projr (constructor (Some (- 3)))) =
     (Inr (), \<lparr>size' = - 3, buckets = [None, Some [(ascii ''a'', ascii ''1'')]], count = 1, console = []\<rparr>)"
  by code_simp

text \<open>
  C6, as amended. A zero or negative size is not rejected: for size 0 the constructor
  returns a table of the initial size 4, and for a negative size a table of that size with
  an empty bucket array. No reachable table has size 0, so no operation divides or takes
  a remainder by zero.
\<close>

theorem constructor_size:
  "constructor (Some 0) =
     Inr \<lparr>size' = 4, buckets = replicate 4 (Some []), count = 0, console = []\<rparr> \<and>
   (n < 0 \<longrightarrow>
      constructor (Some n) = Inr \<lparr>size' = n, buckets = [], count = 0, console = []\<rparr>) \<and>
   (reachable h \<longrightarrow> size' h \<noteq> 0)"
  using reachable_kept [of h]
  by (auto simp: constructor_eq kept_def)

theorem constructor_size_witness:
  "(- 3 :: int) < 0 \<and>
   constructor (Some (- 3)) = Inr \<lparr>size' = - 3, buckets = [], count = 0, console = []\<rparr> \<and>
   reachable (after_calls abc (projr (constructor (Some (- 3))))) \<and>
   size' (after_calls abc (projr (constructor (Some (- 3))))) = - 3 \<and>
   size' (after_calls abc (projr (constructor (Some (- 3))))) \<noteq> 0"
proof -
  have r: "reachable (after_calls abc (projr (constructor (Some (- 3)))))"
    by (rule reachable_after_calls) (simp add: reachable_constructed)
  have e: "size' (after_calls abc (projr (constructor (Some (- 3))))) = - 3" by code_simp
  from constructor_size [of "- 3" "after_calls abc (projr (constructor (Some (- 3))))"] r e
  show ?thesis by simp
qed

text \<open>
  C7. The claim: \<open>setItem(k, v)\<close> followed by \<open>getItem(k)\<close> returns \<open>v\<close>. After
  \<open>clear()\<close> on a grown table (size stays 8, four buckets), five keys land in bucket 0;
  the key \<open>"k2"\<close> then goes to slot 6, the grow rebuild meets the hole at slot 4 and
  throws before it reaches slot 6, and \<open>getItem("k2")\<close> finds nothing.
\<close>

theorem setItem_then_getItem_after_clear:
  "fst (setItem (ascii ''k2'') (ascii ''v'')
     (after_calls (abc @ [Clear] @ cefgh) (projr (constructor None)))) = Inl TypeError \<and>
   fst (getItem (ascii ''k2'')
     (snd (setItem (ascii ''k2'') (ascii ''v'')
        (after_calls (abc @ [Clear] @ cefgh) (projr (constructor None)))))) = None"
  by code_simp

text \<open>
  C8. In every reachable state the \<open>count\<close> field equals the number of entries
  summed across all buckets (a hole of the array holds none).
\<close>

theorem count_is_number_of_entries:
  "reachable h \<Longrightarrow> count h = int (sum_list (map blen (buckets h)))"
  using reachable_kept [of h] by (simp add: kept_def counted_def stored_def length_flat)

theorem count_is_number_of_entries_witness:
  "reachable (after_calls [SetItem (ascii ''a'') (ascii ''1''), SetItem (ascii ''b'') (ascii ''2''),
        SetItem (ascii ''c'') (ascii ''3''), RemoveItem (ascii ''b'')] (projr (constructor None))) \<and>
   count (after_calls [SetItem (ascii ''a'') (ascii ''1''), SetItem (ascii ''b'') (ascii ''2''),
        SetItem (ascii ''c'') (ascii ''3''), RemoveItem (ascii ''b'')] (projr (constructor None))) = 2"
proof -
  let ?h = "after_calls [SetItem (ascii ''a'') (ascii ''1''), SetItem (ascii ''b'') (ascii ''2''),
        SetItem (ascii ''c'') (ascii ''3''), RemoveItem (ascii ''b'')] (projr (constructor None))"
  have r: "reachable ?h"
    by (rule reachable_after_calls) (simp add: reachable_constructed)
  have "int (sum_list (map blen (buckets ?h))) = 2" by code_simp
  with count_is_number_of_entries [OF r] r show ?thesis by simp
qed

text \<open>
  C9. The claim: \<open>getItem\<close> leaves the whole state unchanged. Where the slot at the
  key's index is missing, \<open>#getBucket\<close> puts an empty bucket there: after \<open>clear()\<close>
  on a grown table the array has four buckets, and \<open>getItem("a")\<close> (index 4) leaves five.
\<close>

theorem getItem_fills_hole_after_clear:
  "buckets (after_calls (abc @ [Clear]) (projr (constructor None))) = [Some [], Some [], Some [], Some []] \<and>
   getItem (ascii ''a'') (after_calls (abc @ [Clear]) (projr (constructor None))) =
     (None, \<lparr>size' = 8, buckets = [Some [], Some [], Some [], Some [], Some []], count = 0,
              console = [8]\<rparr>)"
  by code_simp

text \<open>
  C9, as amended. \<open>getItem\<close> changes neither \<open>size\<close>, \<open>count\<close>, the console nor
  any stored entry, and every bucket keeps its contents; where the slot at the key's index
  holds a bucket the state is unchanged, and otherwise the one change is an empty bucket
  in that slot.
\<close>

theorem getItem_changes_no_entry:
  "size' (snd (getItem k h)) = size' h \<and> count (snd (getItem k h)) = count h \<and>
   console (snd (getItem k h)) = console h \<and>
   flat (buckets (snd (getItem k h))) = flat (buckets h) \<and>
   (slot (buckets h) i = Some b \<longrightarrow> slot (buckets (snd (getItem k h))) i = Some b) \<and>
   (slot (buckets h) (nat (hash k h)) \<noteq> None \<longrightarrow> snd (getItem k h) = h) \<and>
   (slot (buckets h) (nat (hash k h)) = None \<longrightarrow>
      snd (getItem k h) = h\<lparr>buckets := set_slot (buckets h) (nat (hash k h)) []\<rparr>)"
  using getItem_frame [of k h] getItem_buckets [of h i b k] getItem_allocated [of h k]
    getItem_hole [of h k]
  by blast

theorem getItem_changes_no_entry_witness:
  "slot (buckets (after_calls abc (projr (constructor None)))) 4 = Some [(ascii ''a'', ascii ''1''), (ascii ''b'', ascii ''2'')] \<and>
   slot (buckets (after_calls abc (projr (constructor None)))) (nat (hash (ascii ''a'') (after_calls abc (projr (constructor None))))) \<noteq> None \<and>
   snd (getItem (ascii ''a'') (after_calls abc (projr (constructor None)))) = after_calls abc (projr (constructor None)) \<and>
   slot (buckets (after_calls (abc @ [Clear]) (projr (constructor None))))
     (nat (hash (ascii ''a'') (after_calls (abc @ [Clear]) (projr (constructor None))))) = None \<and>
   buckets (snd (getItem (ascii ''a'') (after_calls (abc @ [Clear]) (projr (constructor None))))) =
     [Some [], Some [], Some [], Some [], Some []]"
proof -
  let ?g = "after_calls abc (projr (constructor None))"
  let ?c = "after_calls (abc @ [Clear]) (projr (constructor None))"
  have s4: "slot (buckets ?g) 4 = Some [(ascii ''a'', ascii ''1''), (ascii ''b'', ascii ''2'')]"
    by code_simp
  have al: "slot (buckets ?g) (nat (hash (ascii ''a'') ?g)) \<noteq> None" by code_simp
  have ho: "slot (buckets ?c) (nat (hash (ascii ''a'') ?c)) = None" by code_simp
  have ev: "buckets (?c\<lparr>buckets := set_slot (buckets ?c) (nat (hash (ascii ''a'') ?c)) []\<rparr>) =
     [Some [], Some [], Some [], Some [], Some []]" by code_simp
  from getItem_changes_no_entry [of "ascii ''a''" ?g 4 "[(ascii ''a'', ascii ''1''), (ascii ''b'', ascii ''2'')]"] al
  have 1: "snd (getItem (ascii ''a'') ?g) = ?g" by blast
  from getItem_changes_no_entry [of "ascii ''a''" ?c 0 "[]"] ho
  have "snd (getItem (ascii ''a'') ?c) = ?c\<lparr>buckets := set_slot (buckets ?c) (nat (hash (ascii ''a'') ?c)) []\<rparr>"
    by blast
  with ev have 2: "buckets (snd (getItem (ascii ''a'') ?c)) = [Some [], Some [], Some [], Some [], Some []]"
    by simp
  from s4 al 1 ho 2 show ?thesis by blast
qed

text \<open>
  C10. The claim: no operation fails on a missing bucket. \<open>#getBucket\<close> fills the slot
  it is asked for, but \<open>#resize\<close> iterates over the whole old array: after \<open>clear()\<close> on
  a grown table and five inserts into bucket 0, a lookup or insert of \<open>"k2"\<close> fills slot 6
  and leaves slots 4 and 5 as holes, and the insert, the sixth entry of 8, starts a rebuild
  that throws a TypeError at slot 4.
\<close>

theorem setItem_throws_on_hole:
  "buckets (after_calls (abc @ [Clear] @ cefgh @ [GetItem (ascii ''k2'')]) (projr (constructor None))) =
     [Some [(ascii ''c'', ascii ''v''), (ascii ''e'', ascii ''v''), (ascii ''f'', ascii ''v''),
            (ascii ''g'', ascii ''v''), (ascii ''h'', ascii ''v'')],
      Some [], Some [], Some [], None, None, Some []] \<and>
   fst (setItem (ascii ''k2'') (ascii ''v'')
     (after_calls (abc @ [Clear] @ cefgh) (projr (constructor None)))) = Inl TypeError"
  by code_simp

end
